theory Spec2Isabelle
  imports Main "HOL-Library.Word"
begin

unbundle bit_operations_syntax

section \<open>Data model (hookexecutor/executor.go, lines 19-61)\<close>

text \<open>
  The constants of the source. Durations are nanoseconds, as Go's \<^verbatim>\<open>time.Duration\<close>.
\<close>

definition DefaultClientBufferSize :: nat where
  "DefaultClientBufferSize = 8"

definition DefaultHeartbeatTimeout :: int where
  "DefaultHeartbeatTimeout = 10 * 1000000000"

definition DefaultMessageLengthCap :: nat where
  "DefaultMessageLengthCap = 4 * 1024"

type_synonym byte = "8 word"

text \<open>
  \<^verbatim>\<open>IncomingEvent{Type string; Data map[string]string}\<close>. A Go map value may be nil:
  \<open>None\<close> is the nil map, \<open>Some m\<close> an allocated one.
\<close>

record IncomingEvent =
  Type :: string
  Data :: "(string \<rightharpoonup> string) option"

text \<open>
  \<^verbatim>\<open>Message{*IncomingEvent; ID int}\<close>. The embedded field is a pointer: \<open>None\<close> is nil.
  \<^verbatim>\<open>int\<close> is the 64-bit machine integer, read as signed by \<open>sint\<close>.
\<close>

record Message =
  event :: "IncomingEvent option"
  ID :: "64 word"

text \<open>
  The error values of the package: \<^verbatim>\<open>errors.New("message is too long")\<close>, a failed read or
  write on the connection, a failure of the codec, a failure of the chat stream, and the
  error value a recovered panic is turned into by \<^verbatim>\<open>stopPanic\<close>.
\<close>

datatype error = ErrMessageTooLong | ErrIO | ErrCodec | ErrStream | ErrPanic

text \<open>
  Indexing a Go map: a missing key and a nil map both give the zero value, the empty string.
\<close>

definition map_index :: "(string \<rightharpoonup> string) option \<Rightarrow> string \<Rightarrow> string" where
  "map_index d k = (case d of None \<Rightarrow> [] | Some m \<Rightarrow> (case m k of None \<Rightarrow> [] | Some v \<Rightarrow> v))"

section \<open>The connection\<close>

text \<open>
  A \<^verbatim>\<open>net.Conn\<close> as the functions below use it. \<open>incoming\<close> lists the data in the order
  it arrives, one chunk per arrival: a \<^verbatim>\<open>Read\<close> returns bytes of the first chunk only, at
  most as many as asked for, and fails when nothing arrives before the deadline.
  \<open>outgoing\<close> lists what has been written, one chunk per \<^verbatim>\<open>Write\<close>. \<open>wbudget\<close> is the
  number of bytes the connection still accepts before a write fails (\<open>None\<close>: it never
  fails); a failing \<^verbatim>\<open>Write\<close> has written the bytes that still fitted.
\<close>

record conn =
  incoming :: "byte list list"
  outgoing :: "byte list list"
  wbudget :: "nat option"
  read_deadline :: "int option"
  write_deadline :: "int option"

definition conn_Read :: "conn \<Rightarrow> nat \<Rightarrow> (error + byte list) \<times> conn" where
  "conn_Read c n =
     (case incoming c of
        [] \<Rightarrow> (Inl ErrIO, c)
      | ch # rest \<Rightarrow>
          (Inr (take n ch),
           c\<lparr>incoming := (if length ch \<le> n then rest else drop n ch # rest)\<rparr>))"

definition conn_Write :: "conn \<Rightarrow> byte list \<Rightarrow> error option \<times> conn" where
  "conn_Write c p =
     (case wbudget c of
        None \<Rightarrow> (None, c\<lparr>outgoing := outgoing c @ [p]\<rparr>)
      | Some b \<Rightarrow>
          if length p \<le> b
          then (None, c\<lparr>outgoing := outgoing c @ [p], wbudget := Some (b - length p)\<rparr>)
          else (Some ErrIO,
                c\<lparr>outgoing := (if b = 0 then outgoing c else outgoing c @ [take b p]),
                  wbudget := Some 0\<rparr>))"

text \<open>
  \<^verbatim>\<open>io.CopyN(buf, conn, n)\<close>: reads from the connection until \<open>n\<close> bytes are copied or a
  read fails. For \<open>n = 0\<close> no read is issued.
\<close>

fun CopyN_chunks :: "byte list list \<Rightarrow> nat \<Rightarrow> (error + byte list) \<times> byte list list" where
  "CopyN_chunks [] n = (if n = 0 then (Inr [], []) else (Inl ErrIO, []))"
| "CopyN_chunks (ch # rest) n =
     (if n = 0 then (Inr [], ch # rest)
      else if n \<le> length ch
        then (Inr (take n ch), (if length ch \<le> n then rest else drop n ch # rest))
      else (case CopyN_chunks rest (n - length ch) of
              (Inl err, left) \<Rightarrow> (Inl err, left)
            | (Inr got, left) \<Rightarrow> (Inr (ch @ got), left)))"

definition io_CopyN :: "conn \<Rightarrow> nat \<Rightarrow> (error + byte list) \<times> conn" where
  "io_CopyN c n =
     (case CopyN_chunks (incoming c) n of (r, left) \<Rightarrow> (r, c\<lparr>incoming := left\<rparr>))"

text \<open>
  \<^verbatim>\<open>io.Copy(conn, bytes.NewBuffer(buf))\<close>: the buffer writes itself with one \<^verbatim>\<open>Write\<close>,
  and with none when it is empty.
\<close>

definition io_Copy :: "conn \<Rightarrow> byte list \<Rightarrow> error option \<times> conn" where
  "io_Copy c buf = (if buf = [] then (None, c) else conn_Write c buf)"

section \<open>Framing codec (lines 209-264)\<close>

text \<open>
  \<^verbatim>\<open>binary.BigEndian\<close> on a \<^verbatim>\<open>[2]byte\<close> array, here a pair.
\<close>

definition BigEndian_Uint16 :: "byte \<times> byte \<Rightarrow> 16 word" where
  "BigEndian_Uint16 b = (ucast (snd b) OR push_bit 8 (ucast (fst b)))"

definition BigEndian_PutUint16 :: "16 word \<Rightarrow> byte \<times> byte" where
  "BigEndian_PutUint16 v = (ucast (drop_bit 8 v), ucast v)"

text \<open>
  What \<^verbatim>\<open>conn.Read(lengthBuf[:])\<close> leaves in the array: the bytes read overwrite its
  first cells, the others keep their value.
\<close>

definition read_into :: "byte \<times> byte \<Rightarrow> byte list \<Rightarrow> byte \<times> byte" where
  "read_into buf got =
     (case got of [] \<Rightarrow> buf | [x] \<Rightarrow> (x, snd buf) | x # y # _ \<Rightarrow> (x, y))"

text \<open>
  The MessagePack codec is a library outside the repository: the encoder and the decoder
  are parameters of the two framing functions.
\<close>

type_synonym encoder = "Message \<Rightarrow> error + byte list"
type_synonym decoder = "byte list \<Rightarrow> error + Message"

text \<open>
  \<^verbatim>\<open>ReadMessage\<close>. The read deadline is set from the constant, not from the parameter
  \<open>timeout\<close>; the count returned by the first \<^verbatim>\<open>Read\<close> is dropped.
\<close>

definition ReadMessage :: "decoder \<Rightarrow> int \<Rightarrow> int \<Rightarrow> conn \<Rightarrow> (error + Message) \<times> conn" where
  "ReadMessage dec now timeout c =
     (let c1 = c\<lparr>read_deadline := Some (now + DefaultHeartbeatTimeout)\<rparr> in
      case conn_Read c1 2 of
        (Inl err, c2) \<Rightarrow> (Inl err, c2)
      | (Inr got, c2) \<Rightarrow>
          (let lengthBuf = read_into (0, 0) got;
               len = unat (BigEndian_Uint16 lengthBuf) in
           if len > DefaultMessageLengthCap then (Inl ErrMessageTooLong, c2)
           else (case io_CopyN c2 len of
                   (Inl err, c3) \<Rightarrow> (Inl err, c3)
                 | (Inr buf, c3) \<Rightarrow>
                     (case dec buf of
                        Inl err \<Rightarrow> (Inl err, c3)
                      | Inr result \<Rightarrow> (Inr result, c3)))))"

text \<open>
  \<^verbatim>\<open>WriteMessage\<close>. \<^verbatim>\<open>uint16(length)\<close> truncates to 16 bits (\<open>of_nat\<close> on words).
\<close>

definition WriteMessage :: "encoder \<Rightarrow> int \<Rightarrow> int \<Rightarrow> Message \<Rightarrow> conn \<Rightarrow> error option \<times> conn" where
  "WriteMessage enc now timeout msg c =
     (case enc msg of
        Inl err \<Rightarrow> (Some err, c)
      | Inr buf \<Rightarrow>
          (let len = length buf in
           if len > DefaultMessageLengthCap then (Some ErrMessageTooLong, c)
           else
             (let lengthBuf = BigEndian_PutUint16 (of_nat len);
                  c1 = c\<lparr>write_deadline := Some (now + timeout)\<rparr> in
              case conn_Write c1 [fst lengthBuf, snd lengthBuf] of
                (Some err, c2) \<Rightarrow> (Some err, c2)
              | (None, c2) \<Rightarrow> io_Copy c2 buf)))"

text \<open>The frame of a body: the two length bytes, then the body.\<close>

definition frame_of :: "byte list \<Rightarrow> byte list" where
  "frame_of buf =
     (let lengthBuf = BigEndian_PutUint16 (of_nat (length buf))
      in fst lengthBuf # snd lengthBuf # buf)"

section \<open>Channels and the client registry (lines 39-61)\<close>

text \<open>
  A buffered channel of \<^verbatim>\<open>*Message\<close>: its queued messages, its capacity, and whether it
  has been closed. Channels are shared objects, so they live in a store, a list indexed by
  address; \<^verbatim>\<open>make\<close> appends a fresh one. The registry holds addresses into this store.
\<close>

record chan =
  ch_buf :: "Message list"
  ch_cap :: nat
  ch_closed :: bool

definition make_chan :: "chan list \<Rightarrow> nat \<Rightarrow> nat \<times> chan list" where
  "make_chan h n = (length h, h @ [\<lparr>ch_buf = [], ch_cap = n, ch_closed = False\<rparr>])"

text \<open>
  \<^verbatim>\<open>select { case ch <- msg: default: }\<close>: the send goes through when the buffer has
  room, takes the default branch when it is full, and panics on a closed channel. An
  address outside the store stands for the nil channel, on which a send is never ready.
\<close>

datatype send_result = Sent "chan list" | WouldBlock | SendPanic

definition try_send :: "chan list \<Rightarrow> nat \<Rightarrow> Message \<Rightarrow> send_result" where
  "try_send h a msg =
     (if a < length h then
        (if ch_closed (h ! a) then SendPanic
         else if length (ch_buf (h ! a)) < ch_cap (h ! a)
           then Sent (h[a := (h ! a)\<lparr>ch_buf := ch_buf (h ! a) @ [msg]\<rparr>])
         else WouldBlock)
      else WouldBlock)"

text \<open>\<^verbatim>\<open>close(ch)\<close>: \<open>None\<close> is the panic on a closed or nil channel.\<close>

definition close_chan :: "chan list \<Rightarrow> nat \<Rightarrow> chan list option" where
  "close_chan h a =
     (if a < length h \<and> \<not> ch_closed (h ! a)
      then Some (h[a := (h ! a)\<lparr>ch_closed := True\<rparr>])
      else None)"

text \<open>
  \<^verbatim>\<open>msg, ok := <-inbox\<close> as the writer of a connection does it, when it does not block:
  the oldest queued message, or nothing (\<^verbatim>\<open>ok = false\<close>) on a closed and drained queue.
\<close>

definition recv_chan :: "chan list \<Rightarrow> nat \<Rightarrow> Message option \<times> chan list" where
  "recv_chan h a =
     (if a < length h then
        (case ch_buf (h ! a) of
           [] \<Rightarrow> (None, h)
         | m # ms \<Rightarrow> (Some m, h[a := (h ! a)\<lparr>ch_buf := ms\<rparr>]))
      else (None, h))"

record clientInfo =
  inbox :: nat
  stop :: nat

text \<open>
  The state the event loop owns: the registry, the counter, and the store its registry
  points into. The four intake channels of \<^verbatim>\<open>Executor\<close> appear as the inputs of the loop,
  the logger and the chat stream as its effects.
\<close>

record Executor =
  clients :: "clientInfo list"
  counter :: "64 word"
  chans :: "chan list"

definition NewExecutor :: Executor where
  "NewExecutor = \<lparr>clients = [], counter = 0, chans = []\<rparr>"

text \<open>A function either returns or panics; both leave the store as they changed it.\<close>

datatype 'a outcome = Returned 'a | Panicked "chan list"

section \<open>Broadcast (sendMessage, lines 301-331)\<close>

text \<open>
  The first loop: a non-blocking send to every client, in registry order, collecting the
  indices of the clients whose queue was full.
\<close>

fun offer_loop ::
  "Message \<Rightarrow> clientInfo list \<Rightarrow> nat \<Rightarrow> nat list \<Rightarrow> chan list \<Rightarrow> (nat list \<times> chan list) outcome" where
  "offer_loop msg [] idx deadClientIDs h = Returned (deadClientIDs, h)"
| "offer_loop msg (ch # rest) idx deadClientIDs h =
     (case try_send h (inbox ch) msg of
        Sent h' \<Rightarrow> offer_loop msg rest (Suc idx) deadClientIDs h'
      | WouldBlock \<Rightarrow> offer_loop msg rest (Suc idx) (deadClientIDs @ [idx]) h
      | SendPanic \<Rightarrow> Panicked h)"

text \<open>
  The second loop: walks the registry again with \<open>currentID\<close> pointing into
  \<open>deadClientIDs\<close>; a client at a dead index has its queue closed, the others are kept.
\<close>

fun prune_loop ::
  "clientInfo list \<Rightarrow> nat \<Rightarrow> nat list \<Rightarrow> nat \<Rightarrow> clientInfo list \<Rightarrow> chan list
     \<Rightarrow> (clientInfo list \<times> chan list) outcome" where
  "prune_loop [] idx deadClientIDs currentID aliveClients h = Returned (aliveClients, h)"
| "prune_loop (client # rest) idx deadClientIDs currentID aliveClients h =
     (if currentID < length deadClientIDs \<and> idx = deadClientIDs ! currentID then
        (case close_chan h (inbox client) of
           None \<Rightarrow> Panicked h
         | Some h' \<Rightarrow> prune_loop rest (Suc idx) deadClientIDs (Suc currentID) aliveClients h')
      else prune_loop rest (Suc idx) deadClientIDs currentID (aliveClients @ [client]) h)"

definition sendMessage :: "Executor \<Rightarrow> Message \<Rightarrow> Executor outcome" where
  "sendMessage exc msg =
     (case offer_loop msg (clients exc) 0 [] (chans exc) of
        Panicked h \<Rightarrow> Panicked h
      | Returned (deadClientIDs, h) \<Rightarrow>
          if length deadClientIDs = 0 then Returned (exc\<lparr>chans := h\<rparr>)
          else
            (case prune_loop (clients exc) 0 deadClientIDs 0 [] h of
               Panicked h' \<Rightarrow> Panicked h'
             | Returned (aliveClients, h') \<Rightarrow>
                 Returned (exc\<lparr>clients := aliveClients, chans := h'\<rparr>)))"

section \<open>The event loop (processEvents and SendMessageToBot, lines 273-299 and 333-341)\<close>

text \<open>
  Modelled from the spec: the outgoing chat stanza of the external \<^verbatim>\<open>entity\<close> package,
  with the fields \<^verbatim>\<open>SendMessageToBot\<close> sets. The spec calls it a structured outgoing chat
  stanza, a fixed-destination group message with a body.
\<close>

datatype stanza_type = GROUPCHAT

record stanza =
  stype :: stanza_type
  To :: string
  Body :: string

text \<open>
  The chat stream is an external collaborator: \<open>xmpp\<close> says, for a stanza, whether writing
  it fails.
\<close>

type_synonym stream = "stanza \<Rightarrow> error option"

text \<open>
  What an iteration of a task does besides changing its state: a line on the logger, the
  reply to a registration request, a stanza written to the chat stream, a send on the
  error channel of a connection or on the shared client-originated channel, the closing of
  the stop channel, the deferred \<^verbatim>\<open>conn.Close()\<close>.
\<close>

datatype effect =
    Log_ignoring_cmd string
  | Log_stream_failed error
  | Log_failed_write error
  | Log_failed_write_ping error
  | Log_failed_read error
  | Log_caught_panic
  | Reply clientInfo
  | Stream_Write stanza
  | Errors_send error
  | Outbox_send Message
  | Close_stop
  | Conn_Close

text \<open>
  \<^verbatim>\<open>SendMessageToBot\<close>: \<open>None\<close> is the nil dereference of \<^verbatim>\<open>msg.IncomingEvent\<close>, which
  happens before anything is written.
\<close>

definition SendMessageToBot :: "stream \<Rightarrow> Message \<Rightarrow> effect list option" where
  "SendMessageToBot xmpp msg =
     (case event msg of
        None \<Rightarrow> None
      | Some ev \<Rightarrow>
          (let m = \<lparr>stype = GROUPCHAT, To = ''golang@conference.jabber.ru'',
                    Body = map_index (Data ev) ''body''\<rparr>
           in Some (Stream_Write m #
                    (case xmpp m of None \<Rightarrow> [] | Some err \<Rightarrow> [Log_stream_failed err]))))"

text \<open>
  The four cases of the \<^verbatim>\<open>select\<close>. A receive from the closed chat intake yields nil,
  hence the option.
\<close>

datatype loop_input =
    FromInbox "IncomingEvent option"
  | FromCmdInbox string
  | FromClientRequests
  | FromOutbox Message

text \<open>
  One iteration of \<^verbatim>\<open>processEvents\<close>. A panic is recovered by \<^verbatim>\<open>stopPanic\<close>, which logs it
  and starts the loop again on the same \<^verbatim>\<open>Executor\<close>: the state is kept as the panicking
  iteration left it.
\<close>

definition processEvents :: "stream \<Rightarrow> Executor \<Rightarrow> loop_input \<Rightarrow> Executor \<times> effect list" where
  "processEvents xmpp exc inp =
     (case inp of
        FromInbox msg \<Rightarrow>
          (let message = \<lparr>event = msg, ID = counter exc\<rparr> in
           case sendMessage exc message of
             Panicked h \<Rightarrow> (exc\<lparr>chans := h\<rparr>, [Log_caught_panic])
           | Returned exc' \<Rightarrow> (exc'\<lparr>counter := counter exc' + 1\<rparr>, []))
      | FromCmdInbox cmd \<Rightarrow> (exc, [Log_ignoring_cmd cmd])
      | FromClientRequests \<Rightarrow>
          (case make_chan (chans exc) DefaultClientBufferSize of
             (i, h1) \<Rightarrow>
               (case make_chan h1 0 of
                  (s, h2) \<Rightarrow>
                    (let info = \<lparr>inbox = i, stop = s\<rparr>
                     in (exc\<lparr>clients := clients exc @ [info], chans := h2\<rparr>, [Reply info]))))
      | FromOutbox msg \<Rightarrow>
          (case SendMessageToBot xmpp msg of
             None \<Rightarrow> (exc, [Log_caught_panic])
           | Some effs \<Rightarrow> (exc, effs)))"

text \<open>
  What happens to the shared state over time: iterations of the event loop, interleaved
  with the writers of the connections taking messages off their queues. An iteration is
  one step. A broadcast touches the queue of a client once when the send goes through,
  and twice when it does not (the refused send, which changes nothing, then the close), so
  a receive by that client's writer during the broadcast has the effect of the same
  receive before or after it.
\<close>

datatype step = Loop loop_input | WriterRecv nat

definition do_step :: "stream \<Rightarrow> Executor \<Rightarrow> step \<Rightarrow> Executor" where
  "do_step xmpp exc st =
     (case st of
        Loop inp \<Rightarrow> fst (processEvents xmpp exc inp)
      | WriterRecv a \<Rightarrow> exc\<lparr>chans := snd (recv_chan (chans exc) a)\<rparr>)"

fun run :: "stream \<Rightarrow> Executor \<Rightarrow> step list \<Rightarrow> Executor" where
  "run xmpp exc [] = exc"
| "run xmpp exc (st # rest) = run xmpp (do_step xmpp exc st) rest"

text \<open>The messages the writer of the queue at address \<open>a\<close> takes during a run, in order.\<close>

fun taken :: "stream \<Rightarrow> Executor \<Rightarrow> step list \<Rightarrow> nat \<Rightarrow> Message list" where
  "taken xmpp exc [] a = []"
| "taken xmpp exc (st # rest) a =
     (case st of
        WriterRecv b \<Rightarrow>
          (if b = a then (case fst (recv_chan (chans exc) a) of None \<Rightarrow> [] | Some m \<Rightarrow> [m])
           else [])
      | Loop inp \<Rightarrow> [])
     @ taken xmpp (do_step xmpp exc st) rest a"

text \<open>The chat-origin events among the steps, in order.\<close>

fun chat_events :: "step list \<Rightarrow> IncomingEvent option list" where
  "chat_events [] = []"
| "chat_events (Loop (FromInbox e) # rest) = e # chat_events rest"
| "chat_events (st # rest) = chat_events rest"

text \<open>The step is an iteration of the loop that receives a control command.\<close>

fun is_command :: "step \<Rightarrow> bool" where
  "is_command (Loop (FromCmdInbox cmd)) = True"
| "is_command st = False"

text \<open>The messages the loop makes of events when its counter stands at \<open>c\<close>.\<close>

fun stamp :: "64 word \<Rightarrow> IncomingEvent option list \<Rightarrow> Message list" where
  "stamp c [] = []"
| "stamp c (e # es) = \<lparr>event = e, ID = c\<rparr> # stamp (c + 1) es"

text \<open>
  The registry is well formed: its queues are distinct channels of the store, open, and of
  the capacity \<^verbatim>\<open>processEvents\<close> makes them with.
\<close>

definition registry_ok :: "Executor \<Rightarrow> bool" where
  "registry_ok exc \<longleftrightarrow>
     distinct (map inbox (clients exc)) \<and>
     (\<forall>c \<in> set (clients exc).
        inbox c < length (chans exc) \<and>
        \<not> ch_closed (chans exc ! inbox c) \<and>
        ch_cap (chans exc ! inbox c) = DefaultClientBufferSize)"

text \<open>A client's queue is full: the non-blocking send takes its default branch.\<close>

definition full :: "chan list \<Rightarrow> clientInfo \<Rightarrow> bool" where
  "full h c \<longleftrightarrow> \<not> length (ch_buf (h ! inbox c)) < ch_cap (h ! inbox c)"

text \<open>
  A client's non-blocking send goes through (the \<^verbatim>\<open>case ch.inbox <- msg\<close> branch).
\<close>

definition enqueued :: "chan list \<Rightarrow> clientInfo \<Rightarrow> Message \<Rightarrow> bool" where
  "enqueued h c msg = (case try_send h (inbox c) msg of Sent h' \<Rightarrow> True | _ \<Rightarrow> False)"

text \<open>
  The indices, counted from \<open>idx\<close>, of the clients of a list that satisfy \<open>D\<close>: what
  \<open>deadClientIDs\<close> holds after the first loop, for \<open>D\<close> the full queues.
\<close>

fun dead_from :: "(clientInfo \<Rightarrow> bool) \<Rightarrow> nat \<Rightarrow> clientInfo list \<Rightarrow> nat list" where
  "dead_from D idx [] = []"
| "dead_from D idx (c # cs) = (if D c then [idx] else []) @ dead_from D (Suc idx) cs"

section \<open>The tasks of a connection (clientWriter and clientReader, lines 134-201)\<close>

text \<open>The heartbeat message the writer builds when its ticker fires.\<close>

definition ping :: Message where
  "ping = \<lparr>event = Some \<lparr>Type = ''ping'', Data = None\<rparr>, ID = - 1\<rparr>"

text \<open>
  The three cases of the writer's \<^verbatim>\<open>select\<close>: a receive from its queue (\<open>None\<close> when the
  queue is closed and drained), the ticker, the stop signal.
\<close>

datatype writer_select = Inbox_recv "Message option" | Heartbeat_tick | Stop_signal

text \<open>
  One iteration of \<^verbatim>\<open>clientWriter\<close> at time \<open>now\<close>: whether the loop goes on, the
  connection afterwards, and the effects in order. \<open>stop_closed\<close> says whether the stop
  channel is closed already, in which case \<^verbatim>\<open>close(stop)\<close> panics; the panic is recovered
  after the deferred close of the connection, logged by \<^verbatim>\<open>stopPanic\<close> and again by the
  callback, which then sends it on the error channel.
\<close>

definition clientWriter ::
  "encoder \<Rightarrow> int \<Rightarrow> bool \<Rightarrow> conn \<Rightarrow> writer_select \<Rightarrow> bool \<times> conn \<times> effect list" where
  "clientWriter enc now stop_closed c sel =
     (case sel of
        Inbox_recv None \<Rightarrow>
          (if stop_closed
           then (False, c, [Conn_Close, Log_caught_panic, Log_caught_panic, Errors_send ErrPanic])
           else (False, c, [Close_stop, Conn_Close]))
      | Inbox_recv (Some msg) \<Rightarrow>
          (case WriteMessage enc now DefaultHeartbeatTimeout msg c of
             (Some err, c') \<Rightarrow> (False, c', [Log_failed_write err, Errors_send err, Conn_Close])
           | (None, c') \<Rightarrow> (True, c', []))
      | Heartbeat_tick \<Rightarrow>
          (case WriteMessage enc now DefaultHeartbeatTimeout ping c of
             (Some err, c') \<Rightarrow>
               (False, c', [Log_failed_write_ping err, Errors_send err, Conn_Close])
           | (None, c') \<Rightarrow> (True, c', []))
      | Stop_signal \<Rightarrow> (False, c, [Conn_Close]))"

text \<open>
  The reader's \<^verbatim>\<open>select\<close> between the send on the shared channel and the stop signal:
  which of the two fires first.
\<close>

datatype reader_select = Outbox_ready | Stop_fired

text \<open>
  One iteration of \<^verbatim>\<open>clientReader\<close>. Reading \<^verbatim>\<open>msg.Type\<close> of a message whose embedded
  event is nil panics; the panic is recovered like the writer's.
\<close>

definition clientReader ::
  "decoder \<Rightarrow> int \<Rightarrow> reader_select \<Rightarrow> conn \<Rightarrow> bool \<times> conn \<times> effect list" where
  "clientReader dec now sel c =
     (case ReadMessage dec now DefaultHeartbeatTimeout c of
        (Inl err, c') \<Rightarrow> (False, c', [Log_failed_read err, Errors_send err, Conn_Close])
      | (Inr msg, c') \<Rightarrow>
          (case event msg of
             None \<Rightarrow>
               (False, c', [Conn_Close, Log_caught_panic, Log_caught_panic, Errors_send ErrPanic])
           | Some ev \<Rightarrow>
               if Type ev = ''pong'' then (True, c', [])
               else (case sel of
                       Outbox_ready \<Rightarrow> (True, c', [Outbox_send msg])
                     | Stop_fired \<Rightarrow> (False, c', [Conn_Close]))))"

text \<open>The length the first two bytes of a frame declare.\<close>

definition declared :: "byte list \<Rightarrow> nat" where
  "declared fr = (case fr of b0 # b1 # _ \<Rightarrow> unat (BigEndian_Uint16 (b0, b1)) | _ \<Rightarrow> 0)"

section \<open>Properties of the framing codec\<close>

lemma Uint16_PutUint16: "BigEndian_Uint16 (BigEndian_PutUint16 v) = v"
  unfolding BigEndian_Uint16_def BigEndian_PutUint16_def
  by (rule bit_word_eqI) (auto simp add: bit_simps)

lemma declared_length:
  assumes "n \<le> DefaultMessageLengthCap"
  shows "unat (BigEndian_Uint16 (BigEndian_PutUint16 (of_nat n))) = n"
  using assms by (simp add: Uint16_PutUint16 unat_of_nat DefaultMessageLengthCap_def)

section \<open>Properties of the broadcast\<close>

lemma dead_from_ge: "i \<in> set (dead_from D idx cs) \<Longrightarrow> idx \<le> i"
  by (induction cs arbitrary: idx) (auto split: if_splits dest: Suc_leD)

lemma dead_from_cong:
  "(\<And>c. c \<in> set cs \<Longrightarrow> D c = D' c) \<Longrightarrow> dead_from D idx cs = dead_from D' idx cs"
  by (induction cs arbitrary: idx) auto

lemma dead_from_Nil: "dead_from D idx cs = [] \<longleftrightarrow> (\<forall>c \<in> set cs. \<not> D c)"
  by (induction cs arbitrary: idx) auto

lemma prune_loop_spec:
  assumes "drop cur dead = dead_from D idx cs"
    and "distinct (map inbox cs)"
    and "\<forall>c \<in> set cs. D c \<longrightarrow> inbox c < length h \<and> \<not> ch_closed (h ! inbox c)"
  shows "\<exists>h'. prune_loop cs idx dead cur alive h = Returned (alive @ filter (\<lambda>c. \<not> D c) cs, h')
           \<and> length h' = length h
           \<and> (\<forall>a < length h. h' ! a =
                (if a \<in> inbox ` {c \<in> set cs. D c} then (h ! a)\<lparr>ch_closed := True\<rparr> else h ! a))"
  using assms
proof (induction cs arbitrary: idx cur alive h)
  case Nil
  then show ?case by simp
next
  case (Cons c cs)
  show ?case
  proof (cases "D c")
    case True
    with Cons.prems(1) have dr: "drop cur dead = idx # dead_from D (Suc idx) cs" by simp
    then have cur: "cur < length dead" by (metis drop_all list.distinct(1) not_le)
    with dr have at: "dead ! cur = idx" by (metis nth_via_drop)
    from dr have dr': "drop (Suc cur) dead = dead_from D (Suc idx) cs"
      by (metis drop_Suc tl_drop list.sel(3))
    from True Cons.prems(3) have ok: "inbox c < length h" "\<not> ch_closed (h ! inbox c)" by auto
    define h1 where "h1 = h[inbox c := (h ! inbox c)\<lparr>ch_closed := True\<rparr>]"
    have cl: "close_chan h (inbox c) = Some h1" using ok by (simp add: close_chan_def h1_def)
    have notin: "inbox c \<notin> inbox ` set cs" using Cons.prems(2) by auto
    have same: "h1 ! inbox c' = h ! inbox c'" if "c' \<in> set cs" for c'
    proof -
      from that notin have "inbox c \<noteq> inbox c'" by (metis imageI)
      then show ?thesis by (simp add: h1_def)
    qed
    have pre3: "\<forall>c' \<in> set cs. D c' \<longrightarrow> inbox c' < length h1 \<and> \<not> ch_closed (h1 ! inbox c')"
      using Cons.prems(3) same by (simp add: h1_def)
    from Cons.IH[OF dr' _ pre3, of alive] Cons.prems(2)
    obtain h' where h': "prune_loop cs (Suc idx) dead (Suc cur) alive h1 = Returned (alive @ filter (\<lambda>c. \<not> D c) cs, h')"
      "length h' = length h1"
      "\<forall>a < length h1. h' ! a = (if a \<in> inbox ` {c \<in> set cs. D c} then (h1 ! a)\<lparr>ch_closed := True\<rparr> else h1 ! a)"
      by auto
    have "prune_loop (c # cs) idx dead cur alive h = Returned (alive @ filter (\<lambda>c. \<not> D c) (c # cs), h')"
      using cur at cl h'(1) True by simp
    moreover have "length h' = length h" using h'(2) by (simp add: h1_def)
    moreover have "\<forall>a < length h. h' ! a =
                (if a \<in> inbox ` {c' \<in> set (c # cs). D c'} then (h ! a)\<lparr>ch_closed := True\<rparr> else h ! a)"
    proof (intro allI impI)
      fix a assume a: "a < length h"
      then have "a < length h1" by (simp add: h1_def)
      with h'(3) have e: "h' ! a = (if a \<in> inbox ` {c \<in> set cs. D c} then (h1 ! a)\<lparr>ch_closed := True\<rparr> else h1 ! a)" by blast
      show "h' ! a = (if a \<in> inbox ` {c' \<in> set (c # cs). D c'} then (h ! a)\<lparr>ch_closed := True\<rparr> else h ! a)"
      proof (cases "a = inbox c")
        case True
        then have "a \<notin> inbox ` {c \<in> set cs. D c}" using notin by auto
        with e True \<open>D c\<close> a show ?thesis by (auto simp: h1_def)
      next
        case False
        then have "h1 ! a = h ! a" by (simp add: h1_def)
        moreover have "a \<in> inbox ` {c' \<in> set (c # cs). D c'} \<longleftrightarrow> a \<in> inbox ` {c \<in> set cs. D c}"
          using False by auto
        ultimately show ?thesis using e by simp
      qed
    qed
    ultimately show ?thesis by blast
  next
    case False
    with Cons.prems(1) have dr: "drop cur dead = dead_from D (Suc idx) cs" by simp
    have nb: "\<not> (cur < length dead \<and> idx = dead ! cur)"
    proof
      assume a: "cur < length dead \<and> idx = dead ! cur"
      then have "dead ! cur \<in> set (drop cur dead)"
        by (metis Cons_nth_drop_Suc list.set_intros(1))
      with dr have "Suc idx \<le> dead ! cur" by (auto dest: dead_from_ge)
      with a show False by simp
    qed
    have pre3: "\<forall>c' \<in> set cs. D c' \<longrightarrow> inbox c' < length h \<and> \<not> ch_closed (h ! inbox c')"
      using Cons.prems(3) by auto
    from Cons.IH[OF dr _ pre3, of "alive @ [c]"] Cons.prems(2)
    obtain h' where h': "prune_loop cs (Suc idx) dead cur (alive @ [c]) h = Returned ((alive @ [c]) @ filter (\<lambda>c. \<not> D c) cs, h')"
      "length h' = length h"
      "\<forall>a < length h. h' ! a = (if a \<in> inbox ` {c \<in> set cs. D c} then (h ! a)\<lparr>ch_closed := True\<rparr> else h ! a)"
      by auto
    have "prune_loop (c # cs) idx dead cur alive h = Returned (alive @ filter (\<lambda>c. \<not> D c) (c # cs), h')"
      using nb h'(1) False by auto
    moreover have "inbox ` {c' \<in> set (c # cs). D c'} = inbox ` {c \<in> set cs. D c}"
      using False by auto
    ultimately show ?thesis using h'(2,3) by auto
  qed
qed


lemma offer_loop_spec:
  assumes "distinct (map inbox cs)"
    and "\<forall>c \<in> set cs. inbox c < length h \<and> \<not> ch_closed (h ! inbox c)"
  shows "\<exists>h'. offer_loop msg cs idx dead h = Returned (dead @ dead_from (full h) idx cs, h')
           \<and> length h' = length h
           \<and> (\<forall>a < length h. h' ! a =
                (if a \<in> inbox ` {c \<in> set cs. \<not> full h c}
                 then (h ! a)\<lparr>ch_buf := ch_buf (h ! a) @ [msg]\<rparr> else h ! a))"
  using assms
proof (induction cs arbitrary: idx dead h)
  case Nil
  then show ?case by simp
next
  case (Cons c cs)
  from Cons.prems have ok: "inbox c < length h" "\<not> ch_closed (h ! inbox c)" by auto
  have notin: "inbox c \<notin> inbox ` set cs" using Cons.prems(1) by auto
  have dist: "distinct (map inbox cs)" using Cons.prems(1) by simp
  show ?case
  proof (cases "full h c")
    case True
    then have ts: "try_send h (inbox c) msg = WouldBlock"
      using ok by (simp add: try_send_def full_def)
    have pre: "\<forall>c' \<in> set cs. inbox c' < length h \<and> \<not> ch_closed (h ! inbox c')"
      using Cons.prems(2) by simp
    from Cons.IH[OF dist pre, of "Suc idx" "dead @ [idx]"]
    obtain h' where h': "offer_loop msg cs (Suc idx) (dead @ [idx]) h =
          Returned ((dead @ [idx]) @ dead_from (full h) (Suc idx) cs, h')"
      "length h' = length h"
      "\<forall>a < length h. h' ! a = (if a \<in> inbox ` {c \<in> set cs. \<not> full h c}
           then (h ! a)\<lparr>ch_buf := ch_buf (h ! a) @ [msg]\<rparr> else h ! a)"
      by blast
    have "offer_loop msg (c # cs) idx dead h = Returned (dead @ dead_from (full h) idx (c # cs), h')"
      using ts h'(1) True by simp
    moreover have "inbox ` {c' \<in> set (c # cs). \<not> full h c'} = inbox ` {c \<in> set cs. \<not> full h c}"
      using True by auto
    ultimately show ?thesis using h'(2,3) by auto
  next
    case False
    define h1 where "h1 = h[inbox c := (h ! inbox c)\<lparr>ch_buf := ch_buf (h ! inbox c) @ [msg]\<rparr>]"
    have ts: "try_send h (inbox c) msg = Sent h1"
      using ok False by (simp add: try_send_def full_def h1_def)
    have same: "h1 ! inbox c' = h ! inbox c'" if "c' \<in> set cs" for c'
    proof -
      from that notin have "inbox c \<noteq> inbox c'" by (metis imageI)
      then show ?thesis by (simp add: h1_def)
    qed
    have pre: "\<forall>c' \<in> set cs. inbox c' < length h1 \<and> \<not> ch_closed (h1 ! inbox c')"
      using Cons.prems(2) same by (simp add: h1_def)
    have fulleq: "full h1 c' = full h c'" if "c' \<in> set cs" for c'
      using same[OF that] by (simp add: full_def)
    from Cons.IH[OF dist pre, of "Suc idx" dead]
    obtain h' where h': "offer_loop msg cs (Suc idx) dead h1 =
          Returned (dead @ dead_from (full h1) (Suc idx) cs, h')"
      "length h' = length h1"
      "\<forall>a < length h1. h' ! a = (if a \<in> inbox ` {c \<in> set cs. \<not> full h1 c}
           then (h1 ! a)\<lparr>ch_buf := ch_buf (h1 ! a) @ [msg]\<rparr> else h1 ! a)"
      by blast
    have dd: "dead_from (full h1) (Suc idx) cs = dead_from (full h) (Suc idx) cs"
      by (rule dead_from_cong) (rule fulleq)
    have seteq: "{c \<in> set cs. \<not> full h1 c} = {c \<in> set cs. \<not> full h c}"
      using fulleq by auto
    have "offer_loop msg (c # cs) idx dead h = Returned (dead @ dead_from (full h) idx (c # cs), h')"
      using ts h'(1) False dd by simp
    moreover have "length h' = length h" using h'(2) by (simp add: h1_def)
    moreover have "\<forall>a < length h. h' ! a =
                (if a \<in> inbox ` {c' \<in> set (c # cs). \<not> full h c'}
                 then (h ! a)\<lparr>ch_buf := ch_buf (h ! a) @ [msg]\<rparr> else h ! a)"
    proof (intro allI impI)
      fix a assume a: "a < length h"
      then have "a < length h1" by (simp add: h1_def)
      with h'(3) seteq have e: "h' ! a = (if a \<in> inbox ` {c \<in> set cs. \<not> full h c}
           then (h1 ! a)\<lparr>ch_buf := ch_buf (h1 ! a) @ [msg]\<rparr> else h1 ! a)" by simp
      show "h' ! a = (if a \<in> inbox ` {c' \<in> set (c # cs). \<not> full h c'}
                 then (h ! a)\<lparr>ch_buf := ch_buf (h ! a) @ [msg]\<rparr> else h ! a)"
      proof (cases "a = inbox c")
        case True
        then have "a \<notin> inbox ` {c \<in> set cs. \<not> full h c}" using notin by auto
        with e True False a show ?thesis by (auto simp: h1_def)
      next
        case ne: False
        then have "h1 ! a = h ! a" by (simp add: h1_def)
        moreover have "a \<in> inbox ` {c' \<in> set (c # cs). \<not> full h c'} \<longleftrightarrow> a \<in> inbox ` {c \<in> set cs. \<not> full h c}"
          using ne by auto
        ultimately show ?thesis using e by simp
      qed
    qed
    ultimately show ?thesis by blast
  qed
qed


lemma sendMessage_spec:
  assumes "registry_ok exc"
  shows "\<exists>exc'. sendMessage exc msg = Returned exc'
           \<and> clients exc' = filter (\<lambda>c. \<not> full (chans exc) c) (clients exc)
           \<and> counter exc' = counter exc
           \<and> length (chans exc') = length (chans exc)
           \<and> (\<forall>c \<in> set (clients exc). \<not> full (chans exc) c \<longrightarrow>
                 chans exc' ! inbox c =
                   (chans exc ! inbox c)\<lparr>ch_buf := ch_buf (chans exc ! inbox c) @ [msg]\<rparr>)
           \<and> (\<forall>c \<in> set (clients exc). full (chans exc) c \<longrightarrow>
                 chans exc' ! inbox c = (chans exc ! inbox c)\<lparr>ch_closed := True\<rparr>)
           \<and> (\<forall>a < length (chans exc). a \<notin> inbox ` set (clients exc) \<longrightarrow>
                 chans exc' ! a = chans exc ! a)"
proof -
  define cs where "cs = clients exc"
  define h where "h = chans exc"
  from assms have dist: "distinct (map inbox cs)"
    and rng: "\<forall>c \<in> set cs. inbox c < length h \<and> \<not> ch_closed (h ! inbox c)"
    by (simp_all add: registry_ok_def cs_def h_def)
  from dist have inj: "inj_on inbox (set cs)" by (simp add: distinct_map)
  from offer_loop_spec[OF dist rng, of msg 0 "[]"]
  obtain h1 where h1: "offer_loop msg cs 0 [] h = Returned (dead_from (full h) 0 cs, h1)"
    "length h1 = length h"
    "\<forall>a < length h. h1 ! a = (if a \<in> inbox ` {c \<in> set cs. \<not> full h c}
         then (h ! a)\<lparr>ch_buf := ch_buf (h ! a) @ [msg]\<rparr> else h ! a)"
    by auto
  have h1_nonfull: "h1 ! inbox c = (h ! inbox c)\<lparr>ch_buf := ch_buf (h ! inbox c) @ [msg]\<rparr>"
    if "c \<in> set cs" "\<not> full h c" for c
  proof -
    from that rng have "inbox c < length h" by simp
    moreover from that have "inbox c \<in> inbox ` {c \<in> set cs. \<not> full h c}" by blast
    ultimately show ?thesis using h1(3) by simp
  qed
  have h1_full: "h1 ! inbox c = h ! inbox c" if "c \<in> set cs" "full h c" for c
  proof -
    from that rng have "inbox c < length h" by simp
    moreover have "inbox c \<notin> inbox ` {c \<in> set cs. \<not> full h c}"
    proof
      assume "inbox c \<in> inbox ` {c \<in> set cs. \<not> full h c}"
      then obtain c' where "c' \<in> set cs" "\<not> full h c'" "inbox c = inbox c'" by auto
      with inj that(1) have "c = c'" by (auto dest: inj_onD)
      with \<open>\<not> full h c'\<close> that(2) show False by simp
    qed
    ultimately show ?thesis using h1(3) by simp
  qed
  have h1_other: "h1 ! a = h ! a" if "a < length h" "a \<notin> inbox ` set cs" for a
  proof -
    from that(2) have "a \<notin> inbox ` {c \<in> set cs. \<not> full h c}" by blast
    with that(1) h1(3) show ?thesis by simp
  qed
  show ?thesis
  proof (cases "dead_from (full h) 0 cs = []")
    case True
    then have nofull: "\<forall>c \<in> set cs. \<not> full h c" by (simp add: dead_from_Nil)
    then have flt: "filter (\<lambda>c. \<not> full h c) cs = cs" by simp
    have "sendMessage exc msg = Returned (exc\<lparr>chans := h1\<rparr>)"
      using h1(1) True by (simp add: sendMessage_def cs_def h_def)
    then show ?thesis
      using flt h1(2) h1_nonfull h1_other nofull
      by (auto simp: cs_def h_def)
  next
    case False
    have pre3: "\<forall>c \<in> set cs. full h c \<longrightarrow> inbox c < length h1 \<and> \<not> ch_closed (h1 ! inbox c)"
      using rng h1(2) h1_full by simp
    from prune_loop_spec[where D = "full h" and cur = 0 and idx = 0 and alive = "[]"
        and dead = "dead_from (full h) 0 cs" and cs = cs and h = h1, OF _ dist pre3]
    obtain h2 where h2: "prune_loop cs 0 (dead_from (full h) 0 cs) 0 [] h1 =
          Returned (filter (\<lambda>c. \<not> full h c) cs, h2)"
      "length h2 = length h1"
      "\<forall>a < length h1. h2 ! a = (if a \<in> inbox ` {c \<in> set cs. full h c}
           then (h1 ! a)\<lparr>ch_closed := True\<rparr> else h1 ! a)"
      by auto
    have sm: "sendMessage exc msg =
        Returned (exc\<lparr>clients := filter (\<lambda>c. \<not> full h c) cs, chans := h2\<rparr>)"
      using h1(1) h2(1) False by (simp add: sendMessage_def cs_def h_def)
    have h2_nonfull: "h2 ! inbox c = (h ! inbox c)\<lparr>ch_buf := ch_buf (h ! inbox c) @ [msg]\<rparr>"
      if "c \<in> set cs" "\<not> full h c" for c
    proof -
      from that rng h1(2) have "inbox c < length h1" by simp
      moreover have "inbox c \<notin> inbox ` {c \<in> set cs. full h c}"
      proof
        assume "inbox c \<in> inbox ` {c \<in> set cs. full h c}"
        then obtain c' where "c' \<in> set cs" "full h c'" "inbox c = inbox c'" by auto
        with inj that(1) have "c = c'" by (auto dest: inj_onD)
        with \<open>full h c'\<close> that(2) show False by simp
      qed
      ultimately show ?thesis using h2(3) h1_nonfull[OF that] by simp
    qed
    have h2_full: "h2 ! inbox c = (h ! inbox c)\<lparr>ch_closed := True\<rparr>"
      if "c \<in> set cs" "full h c" for c
    proof -
      from that rng h1(2) have "inbox c < length h1" by simp
      moreover from that have "inbox c \<in> inbox ` {c \<in> set cs. full h c}" by blast
      ultimately show ?thesis using h2(3) h1_full[OF that] by simp
    qed
    have h2_other: "h2 ! a = h ! a" if "a < length h" "a \<notin> inbox ` set cs" for a
    proof -
      from that(2) have "a \<notin> inbox ` {c \<in> set cs. full h c}" by blast
      with that(1) h1(2) h2(3) h1_other[OF that] show ?thesis by simp
    qed
    show ?thesis
      using sm h2(2) h1(2) h2_nonfull h2_full h2_other
      by (auto simp: cs_def h_def)
  qed
qed

section \<open>The registry invariant\<close>

lemma registry_ok_NewExecutor: "registry_ok NewExecutor"
  by (simp add: registry_ok_def NewExecutor_def)

lemma registry_ok_sendMessage:
  assumes "registry_ok exc" and "sendMessage exc msg = Returned exc'"
  shows "registry_ok exc'"
proof -
  from sendMessage_spec[OF assms(1), of msg] assms(2)
  have cl: "clients exc' = filter (\<lambda>c. \<not> full (chans exc) c) (clients exc)"
    and len: "length (chans exc') = length (chans exc)"
    and nf: "\<forall>c \<in> set (clients exc). \<not> full (chans exc) c \<longrightarrow>
                 chans exc' ! inbox c =
                   (chans exc ! inbox c)\<lparr>ch_buf := ch_buf (chans exc ! inbox c) @ [msg]\<rparr>"
    by auto
  from assms(1) have d: "distinct (map inbox (clients exc))" by (simp add: registry_ok_def)
  have "distinct (map inbox (clients exc'))"
    unfolding cl using d by (simp add: distinct_map_filter)
  moreover have "inbox c < length (chans exc') \<and> \<not> ch_closed (chans exc' ! inbox c)
       \<and> ch_cap (chans exc' ! inbox c) = DefaultClientBufferSize"
    if "c \<in> set (clients exc')" for c
  proof -
    from that cl have c: "c \<in> set (clients exc)" "\<not> full (chans exc) c" by auto
    with nf have "chans exc' ! inbox c =
        (chans exc ! inbox c)\<lparr>ch_buf := ch_buf (chans exc ! inbox c) @ [msg]\<rparr>" by blast
    with assms(1) c(1) len show ?thesis by (simp add: registry_ok_def)
  qed
  ultimately show ?thesis by (simp add: registry_ok_def)
qed

lemma recv_chan_length: "length (snd (recv_chan h a)) = length h"
  by (simp add: recv_chan_def split: list.splits)

lemma recv_chan_other: "b \<noteq> a \<Longrightarrow> snd (recv_chan h a) ! b = h ! b"
  by (simp add: recv_chan_def split: list.splits)

lemma recv_chan_flags:
  "ch_closed (snd (recv_chan h a) ! b) = ch_closed (h ! b) \<and>
   ch_cap (snd (recv_chan h a) ! b) = ch_cap (h ! b)"
  by (cases "b = a") (auto simp: recv_chan_def nth_list_update split: list.splits)

lemma processEvents_register:
  "processEvents xmpp exc FromClientRequests =
     (exc\<lparr>clients := clients exc @ [\<lparr>inbox = length (chans exc), stop = Suc (length (chans exc))\<rparr>],
          chans := chans exc @ [\<lparr>ch_buf = [], ch_cap = DefaultClientBufferSize, ch_closed = False\<rparr>,
                                \<lparr>ch_buf = [], ch_cap = 0, ch_closed = False\<rparr>]\<rparr>,
      [Reply \<lparr>inbox = length (chans exc), stop = Suc (length (chans exc))\<rparr>])"
  by (simp add: processEvents_def make_chan_def Let_def)

lemma registry_ok_register:
  assumes "registry_ok exc"
  shows "registry_ok (fst (processEvents xmpp exc FromClientRequests))"
proof -
  have "inbox c < length (chans exc)" if "c \<in> set (clients exc)" for c
    using assms that by (simp add: registry_ok_def)
  then have fresh: "length (chans exc) \<notin> inbox ` set (clients exc)" by fastforce
  show ?thesis
    using assms fresh
    by (auto simp: registry_ok_def processEvents_register nth_append)
qed

lemma registry_ok_step:
  assumes "registry_ok exc"
  shows "registry_ok (do_step xmpp exc st)"
proof (cases st)
  case (Loop inp)
  show ?thesis
  proof (cases inp)
    case (FromInbox e)
    from sendMessage_spec[OF assms, of "\<lparr>event = e, ID = counter exc\<rparr>"]
    obtain exc' where s: "sendMessage exc \<lparr>event = e, ID = counter exc\<rparr> = Returned exc'" by blast
    from registry_ok_sendMessage[OF assms s] have "registry_ok exc'" .
    then have "registry_ok (exc'\<lparr>counter := counter exc' + 1\<rparr>)" by (simp add: registry_ok_def)
    with s Loop FromInbox show ?thesis by (simp add: do_step_def processEvents_def)
  next
    case (FromCmdInbox cmd)
    with Loop assms show ?thesis by (simp add: do_step_def processEvents_def)
  next
    case FromClientRequests
    with Loop registry_ok_register[OF assms, of xmpp] show ?thesis by (simp add: do_step_def)
  next
    case (FromOutbox m)
    with Loop assms show ?thesis
      by (simp add: do_step_def processEvents_def split: option.splits)
  qed
next
  case (WriterRecv a)
  with assms show ?thesis
    by (simp add: do_step_def registry_ok_def recv_chan_length recv_chan_flags)
qed

lemma registry_ok_run: "registry_ok exc \<Longrightarrow> registry_ok (run xmpp exc sts)"
  by (induction sts arbitrary: exc) (simp_all add: registry_ok_step)

text \<open>Every state the broker reaches from its start has a well-formed registry.\<close>

lemma reachable_registry_ok: "registry_ok (run xmpp NewExecutor sts)"
  by (rule registry_ok_run) (rule registry_ok_NewExecutor)

section \<open>Runs of the event loop\<close>

lemma step_FromInbox:
  assumes "registry_ok exc"
  shows "\<exists>exc'. sendMessage exc \<lparr>event = e, ID = counter exc\<rparr> = Returned exc' \<and>
     processEvents xmpp exc (FromInbox e) = (exc'\<lparr>counter := counter exc + 1\<rparr>, [])"
proof -
  from sendMessage_spec[OF assms, of "\<lparr>event = e, ID = counter exc\<rparr>"]
  obtain exc' where "sendMessage exc \<lparr>event = e, ID = counter exc\<rparr> = Returned exc'"
    "counter exc' = counter exc" by blast
  then show ?thesis by (simp add: processEvents_def)
qed

text \<open>A queue outside the registry is never sent to again and never gets back in.\<close>

lemma unregistered_step:
  assumes "registry_ok exc" and "a < length (chans exc)" and "a \<notin> inbox ` set (clients exc)"
  shows "a < length (chans (do_step xmpp exc st)) \<and>
         a \<notin> inbox ` set (clients (do_step xmpp exc st)) \<and>
         ch_closed (chans (do_step xmpp exc st) ! a) = ch_closed (chans exc ! a) \<and>
         taken xmpp exc [st] a @ ch_buf (chans (do_step xmpp exc st) ! a) = ch_buf (chans exc ! a)"
proof (cases st)
  case (Loop inp)
  show ?thesis
  proof (cases inp)
    case (FromInbox e)
    from step_FromInbox[OF assms(1), of e xmpp]
    obtain exc' where s: "sendMessage exc \<lparr>event = e, ID = counter exc\<rparr> = Returned exc'"
      and p: "processEvents xmpp exc (FromInbox e) = (exc'\<lparr>counter := counter exc + 1\<rparr>, [])"
      by blast
    from sendMessage_spec[OF assms(1), of "\<lparr>event = e, ID = counter exc\<rparr>"] s
    have cl: "clients exc' = filter (\<lambda>c. \<not> full (chans exc) c) (clients exc)"
      and len: "length (chans exc') = length (chans exc)"
      and oth: "\<forall>a < length (chans exc). a \<notin> inbox ` set (clients exc) \<longrightarrow>
                 chans exc' ! a = chans exc ! a"
      by auto
    from cl assms(3) have "a \<notin> inbox ` set (clients exc')" by auto
    moreover from oth assms(2,3) have "chans exc' ! a = chans exc ! a" by blast
    ultimately show ?thesis using Loop FromInbox p len assms(2) by (simp add: do_step_def)
  next
    case (FromCmdInbox cmd)
    with Loop assms show ?thesis by (simp add: do_step_def processEvents_def)
  next
    case FromClientRequests
    with Loop assms show ?thesis
      by (auto simp: do_step_def processEvents_register nth_append)
  next
    case (FromOutbox m)
    with Loop assms show ?thesis
      by (simp add: do_step_def processEvents_def split: option.splits)
  qed
next
  case (WriterRecv b)
  show ?thesis
  proof (cases "b = a")
    case True
    with WriterRecv assms show ?thesis
      by (auto simp: do_step_def recv_chan_def split: list.splits)
  next
    case False
    with WriterRecv assms show ?thesis
      by (simp add: do_step_def recv_chan_length recv_chan_other)
  qed
qed

lemma unregistered_run:
  assumes "registry_ok exc" and "a < length (chans exc)" and "a \<notin> inbox ` set (clients exc)"
  shows "a \<notin> inbox ` set (clients (run xmpp exc sts)) \<and>
         ch_closed (chans (run xmpp exc sts) ! a) = ch_closed (chans exc ! a) \<and>
         taken xmpp exc sts a @ ch_buf (chans (run xmpp exc sts) ! a) = ch_buf (chans exc ! a)"
  using assms
proof (induction sts arbitrary: exc)
  case Nil
  then show ?case by simp
next
  case (Cons st sts)
  from unregistered_step[OF Cons.prems, where xmpp = xmpp and st = st]
  have s: "a < length (chans (do_step xmpp exc st))"
    "a \<notin> inbox ` set (clients (do_step xmpp exc st))"
    "ch_closed (chans (do_step xmpp exc st) ! a) = ch_closed (chans exc ! a)"
    "taken xmpp exc [st] a @ ch_buf (chans (do_step xmpp exc st) ! a) = ch_buf (chans exc ! a)"
    by auto
  from Cons.IH[OF registry_ok_step[OF Cons.prems(1)] s(1,2)]
  have ih: "a \<notin> inbox ` set (clients (run xmpp (do_step xmpp exc st) sts))"
    "ch_closed (chans (run xmpp (do_step xmpp exc st) sts) ! a) = ch_closed (chans (do_step xmpp exc st) ! a)"
    "taken xmpp (do_step xmpp exc st) sts a @ ch_buf (chans (run xmpp (do_step xmpp exc st) sts) ! a)
       = ch_buf (chans (do_step xmpp exc st) ! a)"
    by auto
  have "taken xmpp exc (st # sts) a = taken xmpp exc [st] a @ taken xmpp (do_step xmpp exc st) sts a"
    by simp
  then have "taken xmpp exc (st # sts) a @ ch_buf (chans (run xmpp exc (st # sts)) ! a)
     = taken xmpp exc [st] a @ ch_buf (chans (do_step xmpp exc st) ! a)"
    using ih(3) by simp
  with s ih show ?case by simp
qed

text \<open>A registered queue with room for every coming event gets each of them.\<close>

lemma delivery_step:
  assumes "registry_ok exc" and "c \<in> set (clients exc)"
    and "length (ch_buf (chans exc ! inbox c)) + length (chat_events [st])
           \<le> ch_cap (chans exc ! inbox c)"
  shows "c \<in> set (clients (do_step xmpp exc st)) \<and>
         ch_cap (chans (do_step xmpp exc st) ! inbox c) = ch_cap (chans exc ! inbox c) \<and>
         counter (do_step xmpp exc st) = counter exc + of_nat (length (chat_events [st])) \<and>
         taken xmpp exc [st] (inbox c) @ ch_buf (chans (do_step xmpp exc st) ! inbox c)
           = ch_buf (chans exc ! inbox c) @ stamp (counter exc) (chat_events [st])"
proof (cases st)
  case (Loop inp)
  show ?thesis
  proof (cases inp)
    case (FromInbox e)
    from assms(3) Loop FromInbox have nf: "\<not> full (chans exc) c" by (simp add: full_def)
    from step_FromInbox[OF assms(1), of e xmpp]
    obtain exc' where s: "sendMessage exc \<lparr>event = e, ID = counter exc\<rparr> = Returned exc'"
      and p: "processEvents xmpp exc (FromInbox e) = (exc'\<lparr>counter := counter exc + 1\<rparr>, [])"
      by blast
    from sendMessage_spec[OF assms(1), of "\<lparr>event = e, ID = counter exc\<rparr>"] s
    have cl: "clients exc' = filter (\<lambda>c. \<not> full (chans exc) c) (clients exc)"
      and pushed: "\<forall>c \<in> set (clients exc). \<not> full (chans exc) c \<longrightarrow>
                 chans exc' ! inbox c =
                   (chans exc ! inbox c)\<lparr>ch_buf := ch_buf (chans exc ! inbox c) @ [\<lparr>event = e, ID = counter exc\<rparr>]\<rparr>"
      by auto
    from cl nf assms(2) have "c \<in> set (clients exc')" by simp
    moreover from pushed nf assms(2) have "chans exc' ! inbox c =
        (chans exc ! inbox c)\<lparr>ch_buf := ch_buf (chans exc ! inbox c) @ [\<lparr>event = e, ID = counter exc\<rparr>]\<rparr>"
      by blast
    ultimately show ?thesis using Loop FromInbox p by (simp add: do_step_def)
  next
    case (FromCmdInbox cmd)
    with Loop assms show ?thesis by (simp add: do_step_def processEvents_def)
  next
    case FromClientRequests
    from assms(1,2) have "inbox c < length (chans exc)" by (simp add: registry_ok_def)
    with FromClientRequests Loop assms show ?thesis
      by (simp add: do_step_def processEvents_register nth_append)
  next
    case (FromOutbox m)
    with Loop assms show ?thesis
      by (simp add: do_step_def processEvents_def split: option.splits)
  qed
next
  case (WriterRecv b)
  from assms(1,2) have rng: "inbox c < length (chans exc)" by (simp add: registry_ok_def)
  show ?thesis
  proof (cases "b = inbox c")
    case True
    with WriterRecv assms(2) rng show ?thesis
      by (auto simp: do_step_def recv_chan_def split: list.splits)
  next
    case False
    with WriterRecv assms(2) show ?thesis
      by (simp add: do_step_def recv_chan_other)
  qed
qed

lemma stamp_append: "stamp c (es @ fs) = stamp c es @ stamp (c + of_nat (length es)) fs"
  by (induction es arbitrary: c) (simp_all add: add.assoc add.commute)

lemma chat_events_Cons: "chat_events (st # sts) = chat_events [st] @ chat_events sts"
proof (cases st)
  case (Loop inp)
  then show ?thesis by (cases inp) simp_all
next
  case (WriterRecv b)
  then show ?thesis by simp
qed

lemma delivery_run:
  assumes "registry_ok exc" and "c \<in> set (clients exc)"
    and "length (ch_buf (chans exc ! inbox c)) + length (chat_events sts)
           \<le> ch_cap (chans exc ! inbox c)"
  shows "c \<in> set (clients (run xmpp exc sts)) \<and>
         counter (run xmpp exc sts) = counter exc + of_nat (length (chat_events sts)) \<and>
         taken xmpp exc sts (inbox c) @ ch_buf (chans (run xmpp exc sts) ! inbox c)
           = ch_buf (chans exc ! inbox c) @ stamp (counter exc) (chat_events sts)"
  using assms
proof (induction sts arbitrary: exc)
  case Nil
  then show ?case by simp
next
  case (Cons st sts)
  define exc1 where "exc1 = do_step xmpp exc st"
  have ce: "chat_events (st # sts) = chat_events [st] @ chat_events sts"
    by (rule chat_events_Cons)
  from Cons.prems(3) ce
  have room1: "length (ch_buf (chans exc ! inbox c)) + length (chat_events [st])
           \<le> ch_cap (chans exc ! inbox c)" by simp
  from delivery_step[OF Cons.prems(1,2) room1, where xmpp = xmpp]
  have s: "c \<in> set (clients exc1)"
    "ch_cap (chans exc1 ! inbox c) = ch_cap (chans exc ! inbox c)"
    "counter exc1 = counter exc + of_nat (length (chat_events [st]))"
    "taken xmpp exc [st] (inbox c) @ ch_buf (chans exc1 ! inbox c)
           = ch_buf (chans exc ! inbox c) @ stamp (counter exc) (chat_events [st])"
    by (simp_all add: exc1_def)
  from s(4) have "length (taken xmpp exc [st] (inbox c)) + length (ch_buf (chans exc1 ! inbox c))
     = length (ch_buf (chans exc ! inbox c)) + length (stamp (counter exc) (chat_events [st]))"
    by (metis length_append)
  moreover have "length (stamp k es) = length es" for k es
    by (induction es arbitrary: k) simp_all
  ultimately have "length (ch_buf (chans exc1 ! inbox c))
     \<le> length (ch_buf (chans exc ! inbox c)) + length (chat_events [st])" by simp
  with Cons.prems(3) ce s(2)
  have room: "length (ch_buf (chans exc1 ! inbox c)) + length (chat_events sts)
           \<le> ch_cap (chans exc1 ! inbox c)" by simp
  have ok1: "registry_ok exc1" unfolding exc1_def by (rule registry_ok_step[OF Cons.prems(1)])
  from Cons.IH[OF ok1 s(1) room]
  have ih: "c \<in> set (clients (run xmpp exc1 sts))"
    "counter (run xmpp exc1 sts) = counter exc1 + of_nat (length (chat_events sts))"
    "taken xmpp exc1 sts (inbox c) @ ch_buf (chans (run xmpp exc1 sts) ! inbox c)
           = ch_buf (chans exc1 ! inbox c) @ stamp (counter exc1) (chat_events sts)"
    by auto
  have r: "run xmpp exc (st # sts) = run xmpp exc1 sts" by (simp add: exc1_def)
  have t: "taken xmpp exc (st # sts) (inbox c) = taken xmpp exc [st] (inbox c) @ taken xmpp exc1 sts (inbox c)"
    by (simp add: exc1_def)
  have "taken xmpp exc (st # sts) (inbox c) @ ch_buf (chans (run xmpp exc (st # sts)) ! inbox c)
      = taken xmpp exc [st] (inbox c) @ ch_buf (chans exc1 ! inbox c) @ stamp (counter exc1) (chat_events sts)"
    using ih(3) r t by simp
  also have "\<dots> = ch_buf (chans exc ! inbox c) @ stamp (counter exc) (chat_events [st]) @ stamp (counter exc1) (chat_events sts)"
    using s(4) by (metis append_assoc)
  also have "\<dots> = ch_buf (chans exc ! inbox c) @ stamp (counter exc) (chat_events (st # sts))"
    using ce s(3) by (simp add: stamp_append)
  finally have main: "taken xmpp exc (st # sts) (inbox c) @ ch_buf (chans (run xmpp exc (st # sts)) ! inbox c)
      = ch_buf (chans exc ! inbox c) @ stamp (counter exc) (chat_events (st # sts))" .
  have "counter (run xmpp exc (st # sts)) = counter exc + of_nat (length (chat_events (st # sts)))"
    using ih(2) s(3) r ce by simp
  with main ih(1) r show ?case by simp
qed

section \<open>The counter\<close>

lemma length_stamp: "length (stamp k es) = length es"
  by (induction es arbitrary: k) simp_all

lemma event_stamp: "map event (stamp k es) = es"
  by (induction es arbitrary: k) simp_all

lemma ID_stamp: "map ID (stamp k es) = map (\<lambda>i. k + of_nat i) [0..<length es]"
proof (induction es arbitrary: k)
  case Nil
  then show ?case by simp
next
  case (Cons e es)
  have "[0..<length (e # es)] = 0 # map Suc [0..<length es]"
    by (simp add: upt_conv_Cons map_Suc_upt del: upt_Suc)
  then show ?case using Cons.IH[of "k + 1"] by (simp add: add.assoc add.commute del: upt_Suc)
qed

lemma sint_small: "sint (of_nat i :: 64 word) = int i" if "i < 2 ^ 63"
proof -
  have "sint (of_nat i :: 64 word) = signed_take_bit 63 (int i)"
    by (simp add: signed_of_nat)
  also have "\<dots> = int i"
    using that by (intro signed_take_bit_int_eq_self) simp_all
  finally show ?thesis .
qed



section \<open>The claims about the broadcast\<close>

lemma enqueued_iff:
  assumes "inbox c < length h" and "\<not> ch_closed (h ! inbox c)"
  shows "enqueued h c msg \<longleftrightarrow> \<not> full h c"
  using assms by (simp add: enqueued_def try_send_def full_def)


text \<open>
  C10. After a broadcast the registry is exactly the list of the clients registered before
  it whose non-blocking send went through, in their former order: no client that took the
  message is dropped, no client whose queue was full is kept. The broadcast returns
  normally.
\<close>

theorem registry_after_broadcast:
  assumes "registry_ok exc"
  shows "\<exists>exc'. sendMessage exc msg = Returned exc' \<and>
           clients exc' = filter (\<lambda>c. enqueued (chans exc) c msg) (clients exc)"
proof -
  from sendMessage_spec[OF assms, of msg]
  obtain exc' where s: "sendMessage exc msg = Returned exc'"
    and cl: "clients exc' = filter (\<lambda>c. \<not> full (chans exc) c) (clients exc)"
    by blast
  have "enqueued (chans exc) c msg \<longleftrightarrow> \<not> full (chans exc) c" if "c \<in> set (clients exc)" for c
    using assms that by (intro enqueued_iff) (simp_all add: registry_ok_def)
  then have "filter (\<lambda>c. \<not> full (chans exc) c) (clients exc)
           = filter (\<lambda>c. enqueued (chans exc) c msg) (clients exc)"
    by (intro filter_cong) simp_all
  with s cl show ?thesis by simp
qed

theorem registry_after_broadcast_witness:
  "registry_ok
     \<lparr>clients = [\<lparr>inbox = 0, stop = 1\<rparr>, \<lparr>inbox = 2, stop = 3\<rparr>, \<lparr>inbox = 4, stop = 5\<rparr>],
      counter = 8,
      chans = [\<lparr>ch_buf = [], ch_cap = 8, ch_closed = False\<rparr>,
               \<lparr>ch_buf = [], ch_cap = 0, ch_closed = False\<rparr>,
               \<lparr>ch_buf = replicate 8 \<lparr>event = None, ID = 0\<rparr>, ch_cap = 8, ch_closed = False\<rparr>,
               \<lparr>ch_buf = [], ch_cap = 0, ch_closed = False\<rparr>,
               \<lparr>ch_buf = [], ch_cap = 8, ch_closed = False\<rparr>,
               \<lparr>ch_buf = [], ch_cap = 0, ch_closed = False\<rparr>]\<rparr> \<and>
   (\<exists>exc'. sendMessage
       \<lparr>clients = [\<lparr>inbox = 0, stop = 1\<rparr>, \<lparr>inbox = 2, stop = 3\<rparr>, \<lparr>inbox = 4, stop = 5\<rparr>],
        counter = 8,
        chans = [\<lparr>ch_buf = [], ch_cap = 8, ch_closed = False\<rparr>,
                 \<lparr>ch_buf = [], ch_cap = 0, ch_closed = False\<rparr>,
                 \<lparr>ch_buf = replicate 8 \<lparr>event = None, ID = 0\<rparr>, ch_cap = 8, ch_closed = False\<rparr>,
                 \<lparr>ch_buf = [], ch_cap = 0, ch_closed = False\<rparr>,
                 \<lparr>ch_buf = [], ch_cap = 8, ch_closed = False\<rparr>,
                 \<lparr>ch_buf = [], ch_cap = 0, ch_closed = False\<rparr>]\<rparr>
       \<lparr>event = Some \<lparr>Type = ''message'', Data = None\<rparr>, ID = 8\<rparr> = Returned exc' \<and>
     clients exc' = [\<lparr>inbox = 0, stop = 1\<rparr>, \<lparr>inbox = 4, stop = 5\<rparr>])"
proof -
  define W where "W =
     \<lparr>clients = [\<lparr>inbox = 0, stop = 1\<rparr>, \<lparr>inbox = 2, stop = 3\<rparr>, \<lparr>inbox = 4, stop = 5\<rparr>],
      counter = 8 :: 64 word,
      chans = [\<lparr>ch_buf = [], ch_cap = 8, ch_closed = False\<rparr>,
               \<lparr>ch_buf = [], ch_cap = 0, ch_closed = False\<rparr>,
               \<lparr>ch_buf = replicate 8 \<lparr>event = None, ID = 0\<rparr>, ch_cap = 8, ch_closed = False\<rparr>,
               \<lparr>ch_buf = [], ch_cap = 0, ch_closed = False\<rparr>,
               \<lparr>ch_buf = [], ch_cap = 8, ch_closed = False\<rparr>,
               \<lparr>ch_buf = [], ch_cap = 0, ch_closed = False\<rparr>]\<rparr>"
  have ok: "registry_ok W"
    by (simp add: W_def registry_ok_def DefaultClientBufferSize_def)
  have flt: "filter (\<lambda>c. enqueued (chans W) c \<lparr>event = Some \<lparr>Type = ''message'', Data = None\<rparr>, ID = 8\<rparr>)
       (clients W) = [\<lparr>inbox = 0, stop = 1\<rparr>, \<lparr>inbox = 4, stop = 5\<rparr>]"
    by (simp add: W_def enqueued_def try_send_def)
  from registry_after_broadcast[OF ok, of "\<lparr>event = Some \<lparr>Type = ''message'', Data = None\<rparr>, ID = 8\<rparr>"] flt ok
  show ?thesis unfolding W_def by simp
qed

text \<open>
  C1. Take a well-formed state of the event loop whose counter is 0, and any sequence of
  steps after it: iterations of the loop of all four kinds, and writers taking messages
  off their queues. Let N be the number of chat-origin events among the steps. Every
  registered client whose queue is empty and has a capacity of at least N stays registered
  and its queue receives exactly the N events (what its writer took, followed by what is
  still queued), in the order the loop processed them, with the IDs 0, 1, ..., N - 1; the
  counter ends at N.
\<close>

theorem broadcast_delivers_in_order:
  assumes "registry_ok exc" and "counter exc = 0"
    and "c \<in> set (clients exc)" and "ch_buf (chans exc ! inbox c) = []"
    and "length (chat_events sts) \<le> ch_cap (chans exc ! inbox c)"
  shows "c \<in> set (clients (run xmpp exc sts)) \<and>
         taken xmpp exc sts (inbox c) @ ch_buf (chans (run xmpp exc sts) ! inbox c)
           = stamp 0 (chat_events sts) \<and>
         map event (stamp 0 (chat_events sts)) = chat_events sts \<and>
         map (\<lambda>m. sint (ID m)) (stamp 0 (chat_events sts))
           = map int [0..<length (chat_events sts)] \<and>
         counter (run xmpp exc sts) = of_nat (length (chat_events sts))"
proof -
  from assms(4,5)
  have room: "length (ch_buf (chans exc ! inbox c)) + length (chat_events sts)
                \<le> ch_cap (chans exc ! inbox c)" by simp
  from delivery_run[OF assms(1,3) room, where xmpp = xmpp] assms(2,4)
  have d: "c \<in> set (clients (run xmpp exc sts))"
    "counter (run xmpp exc sts) = of_nat (length (chat_events sts))"
    "taken xmpp exc sts (inbox c) @ ch_buf (chans (run xmpp exc sts) ! inbox c)
       = stamp 0 (chat_events sts)"
    by simp_all
  from assms(1,3) have "ch_cap (chans exc ! inbox c) = DefaultClientBufferSize"
    by (simp add: registry_ok_def)
  with assms(5) have small: "length (chat_events sts) \<le> 8"
    by (simp add: DefaultClientBufferSize_def)
  have "sint (ID m) = int i"
    if "i < length (chat_events sts)" "m = stamp 0 (chat_events sts) ! i" for i m
  proof -
    have "ID m = map ID (stamp 0 (chat_events sts)) ! i"
      using that by (simp add: length_stamp)
    also have "\<dots> = of_nat i" using that(1) by (simp add: ID_stamp)
    finally have "ID m = of_nat i" .
    moreover have "i < 2 ^ 63" using that(1) small by simp
    ultimately show ?thesis by (simp add: sint_small)
  qed
  then have ids: "map (\<lambda>m. sint (ID m)) (stamp 0 (chat_events sts))
           = map int [0..<length (chat_events sts)]"
    by (intro nth_equalityI) (simp_all add: length_stamp)
  from d ids show ?thesis by (simp add: event_stamp)
qed

theorem broadcast_delivers_in_order_witness:
  "registry_ok (run (\<lambda>_. None) NewExecutor [Loop FromClientRequests, Loop FromClientRequests]) \<and>
   counter (run (\<lambda>_. None) NewExecutor [Loop FromClientRequests, Loop FromClientRequests]) = 0 \<and>
   \<lparr>inbox = 2, stop = 3\<rparr>
     \<in> set (clients (run (\<lambda>_. None) NewExecutor [Loop FromClientRequests, Loop FromClientRequests])) \<and>
   ch_buf (chans (run (\<lambda>_. None) NewExecutor [Loop FromClientRequests, Loop FromClientRequests]) ! 2) = [] \<and>
   length (chat_events
       [Loop (FromInbox (Some \<lparr>Type = ''message'', Data = Some [''body'' \<mapsto> ''hi'']\<rparr>)),
        WriterRecv 2, Loop (FromCmdInbox ''x''),
        Loop (FromInbox (Some \<lparr>Type = ''message'', Data = None\<rparr>))])
     \<le> ch_cap (chans (run (\<lambda>_. None) NewExecutor [Loop FromClientRequests, Loop FromClientRequests]) ! 2) \<and>
   taken (\<lambda>_. None) (run (\<lambda>_. None) NewExecutor [Loop FromClientRequests, Loop FromClientRequests])
       [Loop (FromInbox (Some \<lparr>Type = ''message'', Data = Some [''body'' \<mapsto> ''hi'']\<rparr>)),
        WriterRecv 2, Loop (FromCmdInbox ''x''),
        Loop (FromInbox (Some \<lparr>Type = ''message'', Data = None\<rparr>))] 2
     @ ch_buf (chans (run (\<lambda>_. None)
         (run (\<lambda>_. None) NewExecutor [Loop FromClientRequests, Loop FromClientRequests])
         [Loop (FromInbox (Some \<lparr>Type = ''message'', Data = Some [''body'' \<mapsto> ''hi'']\<rparr>)),
          WriterRecv 2, Loop (FromCmdInbox ''x''),
          Loop (FromInbox (Some \<lparr>Type = ''message'', Data = None\<rparr>))]) ! 2)
     = [\<lparr>event = Some \<lparr>Type = ''message'', Data = Some [''body'' \<mapsto> ''hi'']\<rparr>, ID = 0\<rparr>,
        \<lparr>event = Some \<lparr>Type = ''message'', Data = None\<rparr>, ID = 1\<rparr>]"
proof -
  define W where "W = run (\<lambda>_. None) NewExecutor [Loop FromClientRequests, Loop FromClientRequests]"
  define sts where "sts =
       [Loop (FromInbox (Some \<lparr>Type = ''message'', Data = Some [''body'' \<mapsto> ''hi'']\<rparr>)),
        WriterRecv 2, Loop (FromCmdInbox ''x''),
        Loop (FromInbox (Some \<lparr>Type = ''message'', Data = None\<rparr>))]"
  have W: "W = \<lparr>clients = [\<lparr>inbox = 0, stop = 1\<rparr>, \<lparr>inbox = 2, stop = 3\<rparr>], counter = 0,
                chans = [\<lparr>ch_buf = [], ch_cap = 8, ch_closed = False\<rparr>,
                         \<lparr>ch_buf = [], ch_cap = 0, ch_closed = False\<rparr>,
                         \<lparr>ch_buf = [], ch_cap = 8, ch_closed = False\<rparr>,
                         \<lparr>ch_buf = [], ch_cap = 0, ch_closed = False\<rparr>]\<rparr>"
    by (simp add: W_def do_step_def processEvents_register NewExecutor_def
        DefaultClientBufferSize_def)
  have h1: "registry_ok W" by (simp add: W registry_ok_def DefaultClientBufferSize_def)
  have h2: "counter W = 0" by (simp add: W)
  have h3: "\<lparr>inbox = 2, stop = 3\<rparr> \<in> set (clients W)" by (simp add: W)
  have h4: "ch_buf (chans W ! inbox \<lparr>inbox = 2, stop = 3\<rparr>) = []" by (simp add: W)
  have h5: "length (chat_events sts) \<le> ch_cap (chans W ! inbox \<lparr>inbox = 2, stop = 3\<rparr>)"
    by (simp add: W sts_def)
  have st: "stamp 0 (chat_events sts) =
      [\<lparr>event = Some \<lparr>Type = ''message'', Data = Some [''body'' \<mapsto> ''hi'']\<rparr>, ID = 0\<rparr>,
       \<lparr>event = Some \<lparr>Type = ''message'', Data = None\<rparr>, ID = 1\<rparr>]"
    by (simp add: sts_def)
  from broadcast_delivers_in_order[OF h1 h2 h3 h4 h5, where xmpp = "\<lambda>_. None"] st
  have "taken (\<lambda>_. None) W sts 2 @ ch_buf (chans (run (\<lambda>_. None) W sts) ! 2) =
      [\<lparr>event = Some \<lparr>Type = ''message'', Data = Some [''body'' \<mapsto> ''hi'']\<rparr>, ID = 0\<rparr>,
       \<lparr>event = Some \<lparr>Type = ''message'', Data = None\<rparr>, ID = 1\<rparr>]"
    by simp
  with h1 h2 h3 h4 h5 show ?thesis unfolding W_def sts_def by simp
qed


lemma registered_once:
  "distinct (map f xs) \<Longrightarrow> x \<in> set xs \<Longrightarrow> length (filter (\<lambda>y. f y = f x) xs) = 1"
proof (induction xs)
  case Nil
  then show ?case by simp
next
  case (Cons a xs)
  show ?case
  proof (cases "f a = f x")
    case True
    with Cons.prems(1) have "\<forall>y \<in> set xs. f y \<noteq> f x" by (metis distinct.simps(2) image_eqI list.simps(9) set_map)
    then have "filter (\<lambda>y. f y = f x) xs = []" by (simp add: filter_empty_conv)
    with True show ?thesis by simp
  next
    case False
    with Cons.prems have "x \<in> set xs" "distinct (map f xs)" by auto
    with Cons.IH False show ?thesis by simp
  qed
qed


text \<open>
  C3. When a chat-origin event is broadcast and the queue of a registered client is full,
  the iteration returns without a panic; the client, which was in the registry once, is
  not in the registry afterwards; its queue is closed; whatever happens later, it never
  gets back into the registry and its queue holds and yields only what was queued before
  the broadcast. Every client whose queue was not full stays registered and has the
  message appended to its queue.
\<close>

theorem full_client_pruned:
  assumes "registry_ok exc" and "c \<in> set (clients exc)" and "full (chans exc) c"
  shows "\<exists>exc1. processEvents xmpp exc (FromInbox e) = (exc1, []) \<and>
           length (filter (\<lambda>c'. inbox c' = inbox c) (clients exc)) = 1 \<and>
           inbox c \<notin> inbox ` set (clients exc1) \<and>
           chans exc1 ! inbox c = (chans exc ! inbox c)\<lparr>ch_closed := True\<rparr> \<and>
           (\<forall>sts. inbox c \<notin> inbox ` set (clients (run xmpp exc1 sts)) \<and>
                  ch_closed (chans (run xmpp exc1 sts) ! inbox c) \<and>
                  taken xmpp exc1 sts (inbox c) @ ch_buf (chans (run xmpp exc1 sts) ! inbox c)
                    = ch_buf (chans exc ! inbox c)) \<and>
           (\<forall>c' \<in> set (clients exc). \<not> full (chans exc) c' \<longrightarrow>
              c' \<in> set (clients exc1) \<and>
              chans exc1 ! inbox c' =
                (chans exc ! inbox c')\<lparr>ch_buf := ch_buf (chans exc ! inbox c')
                                              @ [\<lparr>event = e, ID = counter exc\<rparr>]\<rparr>)"
proof -
  define msg where "msg = \<lparr>event = e, ID = counter exc\<rparr>"
  from step_FromInbox[OF assms(1), of e xmpp]
  obtain exc' where s: "sendMessage exc msg = Returned exc'"
    and p: "processEvents xmpp exc (FromInbox e) = (exc'\<lparr>counter := counter exc + 1\<rparr>, [])"
    by (auto simp: msg_def)
  define exc1 where "exc1 = exc'\<lparr>counter := counter exc + 1\<rparr>"
  from sendMessage_spec[OF assms(1), of msg] s
  have cl: "clients exc' = filter (\<lambda>c. \<not> full (chans exc) c) (clients exc)"
    and len: "length (chans exc') = length (chans exc)"
    and pushed: "\<forall>c \<in> set (clients exc). \<not> full (chans exc) c \<longrightarrow>
                 chans exc' ! inbox c =
                   (chans exc ! inbox c)\<lparr>ch_buf := ch_buf (chans exc ! inbox c) @ [msg]\<rparr>"
    and closed: "\<forall>c \<in> set (clients exc). full (chans exc) c \<longrightarrow>
                 chans exc' ! inbox c = (chans exc ! inbox c)\<lparr>ch_closed := True\<rparr>"
    by auto
  from assms(1) have dist: "distinct (map inbox (clients exc))" by (simp add: registry_ok_def)
  then have inj: "inj_on inbox (set (clients exc))" by (simp add: distinct_map)
  have once: "length (filter (\<lambda>c'. inbox c' = inbox c) (clients exc)) = 1"
    using dist assms(2) by (rule registered_once)
  have gone: "inbox c \<notin> inbox ` set (clients exc1)"
  proof
    assume "inbox c \<in> inbox ` set (clients exc1)"
    then obtain c' where c': "c' \<in> set (clients exc)" "\<not> full (chans exc) c'" "inbox c = inbox c'"
      using cl by (auto simp: exc1_def)
    with inj assms(2) have "c = c'" by (auto dest: inj_onD)
    with c'(2) assms(3) show False by simp
  qed
  have cld: "chans exc1 ! inbox c = (chans exc ! inbox c)\<lparr>ch_closed := True\<rparr>"
    using closed assms(2,3) by (simp add: exc1_def)
  have ok1: "registry_ok exc1"
    using registry_ok_sendMessage[OF assms(1) s] by (simp add: exc1_def registry_ok_def)
  have rng: "inbox c < length (chans exc1)"
    using assms(1,2) len by (simp add: exc1_def registry_ok_def)
  have after: "inbox c \<notin> inbox ` set (clients (run xmpp exc1 sts)) \<and>
                  ch_closed (chans (run xmpp exc1 sts) ! inbox c) \<and>
                  taken xmpp exc1 sts (inbox c) @ ch_buf (chans (run xmpp exc1 sts) ! inbox c)
                    = ch_buf (chans exc ! inbox c)" for sts
    using unregistered_run[OF ok1 rng gone, where xmpp = xmpp and sts = sts] cld by simp
  have others: "c' \<in> set (clients exc1) \<and>
              chans exc1 ! inbox c' =
                (chans exc ! inbox c')\<lparr>ch_buf := ch_buf (chans exc ! inbox c')
                                              @ [\<lparr>event = e, ID = counter exc\<rparr>]\<rparr>"
    if "c' \<in> set (clients exc)" "\<not> full (chans exc) c'" for c'
    using that cl pushed by (simp add: exc1_def msg_def)
  from p once gone cld after others show ?thesis
    unfolding exc1_def by blast
qed


theorem full_client_pruned_witness:
  "registry_ok
     \<lparr>clients = [\<lparr>inbox = 0, stop = 1\<rparr>, \<lparr>inbox = 2, stop = 3\<rparr>], counter = 8,
      chans = [\<lparr>ch_buf = replicate 8 \<lparr>event = None, ID = 0\<rparr>, ch_cap = 8, ch_closed = False\<rparr>,
               \<lparr>ch_buf = [], ch_cap = 0, ch_closed = False\<rparr>,
               \<lparr>ch_buf = [], ch_cap = 8, ch_closed = False\<rparr>,
               \<lparr>ch_buf = [], ch_cap = 0, ch_closed = False\<rparr>]\<rparr> \<and>
   full [\<lparr>ch_buf = replicate 8 \<lparr>event = None, ID = 0\<rparr>, ch_cap = 8, ch_closed = False\<rparr>,
         \<lparr>ch_buf = [], ch_cap = 0, ch_closed = False\<rparr>,
         \<lparr>ch_buf = [], ch_cap = 8, ch_closed = False\<rparr>,
         \<lparr>ch_buf = [], ch_cap = 0, ch_closed = False\<rparr>] \<lparr>inbox = 0, stop = 1\<rparr> \<and>
   (\<exists>exc1. processEvents (\<lambda>_. None)
       \<lparr>clients = [\<lparr>inbox = 0, stop = 1\<rparr>, \<lparr>inbox = 2, stop = 3\<rparr>], counter = 8,
        chans = [\<lparr>ch_buf = replicate 8 \<lparr>event = None, ID = 0\<rparr>, ch_cap = 8, ch_closed = False\<rparr>,
                 \<lparr>ch_buf = [], ch_cap = 0, ch_closed = False\<rparr>,
                 \<lparr>ch_buf = [], ch_cap = 8, ch_closed = False\<rparr>,
                 \<lparr>ch_buf = [], ch_cap = 0, ch_closed = False\<rparr>]\<rparr>
       (FromInbox (Some \<lparr>Type = ''message'', Data = None\<rparr>)) = (exc1, []) \<and>
     0 \<notin> inbox ` set (clients exc1) \<and>
     ch_closed (chans exc1 ! 0) \<and>
     \<lparr>inbox = 2, stop = 3\<rparr> \<in> set (clients exc1) \<and>
     ch_buf (chans exc1 ! 2) = [\<lparr>event = Some \<lparr>Type = ''message'', Data = None\<rparr>, ID = 8\<rparr>])"
proof -
  define W where "W =
     \<lparr>clients = [\<lparr>inbox = 0, stop = 1\<rparr>, \<lparr>inbox = 2, stop = 3\<rparr>], counter = 8 :: 64 word,
      chans = [\<lparr>ch_buf = replicate 8 \<lparr>event = None, ID = 0\<rparr>, ch_cap = 8, ch_closed = False\<rparr>,
               \<lparr>ch_buf = [], ch_cap = 0, ch_closed = False\<rparr>,
               \<lparr>ch_buf = [], ch_cap = 8, ch_closed = False\<rparr>,
               \<lparr>ch_buf = [], ch_cap = 0, ch_closed = False\<rparr>]\<rparr>"
  have h1: "registry_ok W" by (simp add: W_def registry_ok_def DefaultClientBufferSize_def)
  have h2: "\<lparr>inbox = 0, stop = 1\<rparr> \<in> set (clients W)" by (simp add: W_def)
  have h3: "full (chans W) \<lparr>inbox = 0, stop = 1\<rparr>" by (simp add: W_def full_def)
  have h4: "\<lparr>inbox = 2, stop = 3\<rparr> \<in> set (clients W)" "\<not> full (chans W) \<lparr>inbox = 2, stop = 3\<rparr>"
    by (simp_all add: W_def full_def)
  from full_client_pruned[OF h1 h2 h3, where xmpp = "\<lambda>_. None"
      and e = "Some \<lparr>Type = ''message'', Data = None\<rparr>"]
  obtain exc1 where e: "processEvents (\<lambda>_. None) W (FromInbox (Some \<lparr>Type = ''message'', Data = None\<rparr>)) = (exc1, [])"
    "inbox \<lparr>inbox = 0, stop = 1\<rparr> \<notin> inbox ` set (clients exc1)"
    "chans exc1 ! inbox \<lparr>inbox = 0, stop = 1\<rparr> = (chans W ! inbox \<lparr>inbox = 0, stop = 1\<rparr>)\<lparr>ch_closed := True\<rparr>"
    "\<forall>c' \<in> set (clients W). \<not> full (chans W) c' \<longrightarrow>
              c' \<in> set (clients exc1) \<and>
              chans exc1 ! inbox c' =
                (chans W ! inbox c')\<lparr>ch_buf := ch_buf (chans W ! inbox c')
                    @ [\<lparr>event = Some \<lparr>Type = ''message'', Data = None\<rparr>, ID = counter W\<rparr>]\<rparr>"
    by blast
  from e(4) h4 have b: "\<lparr>inbox = 2, stop = 3\<rparr> \<in> set (clients exc1)"
    "chans exc1 ! 2 = (chans W ! 2)\<lparr>ch_buf := ch_buf (chans W ! 2)
                    @ [\<lparr>event = Some \<lparr>Type = ''message'', Data = None\<rparr>, ID = counter W\<rparr>]\<rparr>"
    by auto
  have "0 \<notin> inbox ` set (clients exc1)" using e(2) by simp
  moreover have "ch_closed (chans exc1 ! 0)" using e(3) by simp
  moreover have "ch_buf (chans exc1 ! 2) = [\<lparr>event = Some \<lparr>Type = ''message'', Data = None\<rparr>, ID = 8\<rparr>]"
    using b(2) by (simp add: W_def)
  ultimately show ?thesis using h1 h3 e(1) b(1) unfolding W_def by auto
qed

subsection \<open>Two scenarios\<close>

text \<open>
  A client registers and the chat layer pushes one event: the client's queue holds that
  event with ID 0. Two clients register and nine events are pushed while no writer takes
  anything: after the ninth both clients are out of the registry, both queues are closed
  and hold the first eight messages.
\<close>

lemma scenario_first_message:
  "ch_buf (chans (run xmpp NewExecutor
       [Loop FromClientRequests,
        Loop (FromInbox (Some \<lparr>Type = ''message'', Data = Some [''body'' \<mapsto> ''hi'']\<rparr>))]) ! 0)
     = [\<lparr>event = Some \<lparr>Type = ''message'', Data = Some [''body'' \<mapsto> ''hi'']\<rparr>, ID = 0\<rparr>]"
proof -
  have s1: "do_step xmpp NewExecutor (Loop FromClientRequests) =
      \<lparr>clients = [\<lparr>inbox = 0, stop = 1\<rparr>], counter = 0,
       chans = [\<lparr>ch_buf = [], ch_cap = 8, ch_closed = False\<rparr>,
                \<lparr>ch_buf = [], ch_cap = 0, ch_closed = False\<rparr>]\<rparr>"
    by (simp add: do_step_def processEvents_register NewExecutor_def DefaultClientBufferSize_def)
  have s2: "ch_buf (chans (do_step xmpp
      \<lparr>clients = [\<lparr>inbox = 0, stop = s\<rparr>], counter = 0,
       chans = [\<lparr>ch_buf = [], ch_cap = 8, ch_closed = False\<rparr>,
                \<lparr>ch_buf = [], ch_cap = 0, ch_closed = False\<rparr>]\<rparr>
      (Loop (FromInbox e))) ! 0) = [\<lparr>event = e, ID = 0\<rparr>]" for e s
    by (simp add: do_step_def processEvents_def sendMessage_def try_send_def)
  show ?thesis by (simp add: s1 s2)
qed

lemma scenario_both_saturated:
  "(let exc = run (\<lambda>_. None) NewExecutor
       ([Loop FromClientRequests, Loop FromClientRequests]
        @ replicate 9 (Loop (FromInbox (Some \<lparr>Type = ''message'', Data = None\<rparr>))))
    in clients exc = [] \<and> map ch_closed (chans exc) = [True, False, True, False] \<and>
       map (\<lambda>ch. length (ch_buf ch)) (chans exc) = [8, 0, 8, 0])"
  by code_simp

section \<open>The claims about the framing codec\<close>

lemma declared_frame_of:
  "length buf \<le> DefaultMessageLengthCap \<Longrightarrow> declared (frame_of buf) = length buf"
  by (simp add: declared_def frame_of_def Let_def declared_length)

lemma conn_Write_emits:
  "\<exists>k. concat (outgoing (snd (conn_Write c p))) = concat (outgoing c) @ take k p \<and>
       (fst (conn_Write c p) = None \<longrightarrow> outgoing (snd (conn_Write c p)) = outgoing c @ [p])"
proof (cases "wbudget c")
  case None
  then show ?thesis
    by (intro exI[of _ "length p"]) (simp add: conn_Write_def)
next
  case (Some b)
  show ?thesis
  proof (cases "length p \<le> b")
    case True
    with Some show ?thesis
      by (intro exI[of _ "length p"]) (simp add: conn_Write_def)
  next
    case False
    with Some show ?thesis
      by (intro exI[of _ b]) (simp add: conn_Write_def)
  qed
qed

lemma conn_Write_keeps:
  "incoming (snd (conn_Write c p)) = incoming c"
  by (simp add: conn_Write_def split: option.splits)


text \<open>
  C9. When the encoded body of a message is longer than 4096 bytes, \<^verbatim>\<open>WriteMessage\<close>
  returns the error "message is too long" and leaves the connection as it was: nothing is
  written and no deadline is set. Hence whatever a call of \<^verbatim>\<open>WriteMessage\<close> writes is an
  initial segment of the frame of a body of at most 4096 bytes, whose length prefix
  declares the length of that body.
\<close>

theorem WriteMessage_length_cap:
  "(enc msg = Inr buf \<and> DefaultMessageLengthCap < length buf \<longrightarrow>
      WriteMessage enc now timeout msg c = (Some ErrMessageTooLong, c)) \<and>
   (outgoing (snd (WriteMessage enc now timeout msg c)) \<noteq> outgoing c \<longrightarrow>
      (\<exists>body k. enc msg = Inr body \<and> length body \<le> DefaultMessageLengthCap \<and>
         declared (frame_of body) = length body \<and>
         concat (outgoing (snd (WriteMessage enc now timeout msg c)))
           = concat (outgoing c) @ take k (frame_of body)))"
proof (intro conjI impI)
  assume "enc msg = Inr buf \<and> DefaultMessageLengthCap < length buf"
  then show "WriteMessage enc now timeout msg c = (Some ErrMessageTooLong, c)"
    by (simp add: WriteMessage_def Let_def)
next
  assume changed: "outgoing (snd (WriteMessage enc now timeout msg c)) \<noteq> outgoing c"
  show "\<exists>body k. enc msg = Inr body \<and> length body \<le> DefaultMessageLengthCap \<and>
         declared (frame_of body) = length body \<and>
         concat (outgoing (snd (WriteMessage enc now timeout msg c)))
           = concat (outgoing c) @ take k (frame_of body)"
  proof (cases "enc msg")
    case (Inl err)
    with changed show ?thesis by (simp add: WriteMessage_def)
  next
    case (Inr body)
    show ?thesis
    proof (cases "DefaultMessageLengthCap < length body")
      case True
      with Inr changed show ?thesis by (simp add: WriteMessage_def Let_def)
    next
      case False
      then have le: "length body \<le> DefaultMessageLengthCap" by simp
      define lengthBuf where "lengthBuf = BigEndian_PutUint16 (of_nat (length body))"
      define pre where "pre = [fst lengthBuf, snd lengthBuf]"
      define c1 where "c1 = c\<lparr>write_deadline := Some (now + timeout)\<rparr>"
      have fr: "frame_of body = pre @ body"
        by (simp add: frame_of_def pre_def lengthBuf_def Let_def)
      have wm: "WriteMessage enc now timeout msg c =
          (case conn_Write c1 pre of
             (Some err, c2) \<Rightarrow> (Some err, c2)
           | (None, c2) \<Rightarrow> io_Copy c2 body)"
        using Inr False by (simp add: WriteMessage_def Let_def lengthBuf_def pre_def c1_def)
      obtain r c2 where w1: "conn_Write c1 pre = (r, c2)" by (cases "conn_Write c1 pre")
      from conn_Write_emits[of c1 pre] w1
      obtain k1 where k1: "concat (outgoing c2) = concat (outgoing c) @ take k1 pre"
        "r = None \<longrightarrow> outgoing c2 = outgoing c @ [pre]"
        by (auto simp: c1_def)
      have "\<exists>k. concat (outgoing (snd (WriteMessage enc now timeout msg c)))
           = concat (outgoing c) @ take k (frame_of body)"
      proof (cases r)
        case (Some err)
        with wm w1 have "snd (WriteMessage enc now timeout msg c) = c2" by simp
        moreover have "take k1 pre = take (min k1 2) (frame_of body)"
        proof -
          have l: "length pre = 2" by (simp add: pre_def)
          then have "take (min k1 2) (pre @ body) = take (min k1 2) pre" by simp
          moreover from l have "take (min k1 2) pre = take k1 pre" by (simp add: min_def)
          ultimately show ?thesis by (simp add: fr)
        qed
        ultimately show ?thesis using k1(1) by metis
      next
        case None
        with k1(2) have o2: "outgoing c2 = outgoing c @ [pre]" by simp
        show ?thesis
        proof (cases "body = []")
          case True
          with wm w1 None have "snd (WriteMessage enc now timeout msg c) = c2"
            by (simp add: io_Copy_def)
          moreover have "pre = take 2 (frame_of body)"
          proof -
            have "length pre = 2" by (simp add: pre_def)
            then show ?thesis by (simp add: fr)
          qed
          ultimately show ?thesis using o2 by (metis concat.simps concat_append append_Nil2)
        next
          case ne: False
          with wm w1 None have e: "snd (WriteMessage enc now timeout msg c) = snd (conn_Write c2 body)"
            by (simp add: io_Copy_def)
          from conn_Write_emits[of c2 body]
          obtain k2 where "concat (outgoing (snd (conn_Write c2 body))) = concat (outgoing c2) @ take k2 body"
            by blast
          with o2 e have "concat (outgoing (snd (WriteMessage enc now timeout msg c)))
              = concat (outgoing c) @ pre @ take k2 body" by simp
          moreover have "pre @ take k2 body = take (2 + k2) (frame_of body)"
          proof -
            have "length pre = 2" by (simp add: pre_def)
            then show ?thesis by (simp add: fr)
          qed
          ultimately show ?thesis by metis
        qed
      qed
      with Inr le declared_frame_of[OF le] show ?thesis by blast
    qed
  qed
qed

theorem WriteMessage_length_cap_witness:
  "(\<lambda>m. Inr (replicate 4097 0)) ping = (Inr (replicate 4097 0) :: error + byte list) \<and>
   DefaultMessageLengthCap < length (replicate 4097 (0 :: byte)) \<and>
   WriteMessage (\<lambda>m. Inr (replicate 4097 0)) 5 7 ping
      \<lparr>incoming = [], outgoing = [], wbudget = None, read_deadline = None, write_deadline = None\<rparr>
     = (Some ErrMessageTooLong,
        \<lparr>incoming = [], outgoing = [], wbudget = None, read_deadline = None, write_deadline = None\<rparr>) \<and>
   outgoing (snd (WriteMessage (\<lambda>m. Inr [0xC0]) 5 7 ping
      \<lparr>incoming = [], outgoing = [], wbudget = None, read_deadline = None, write_deadline = None\<rparr>))
     \<noteq> [] \<and>
   (\<exists>body k. length body \<le> DefaultMessageLengthCap \<and> declared (frame_of body) = length body \<and>
      concat (outgoing (snd (WriteMessage (\<lambda>m. Inr [0xC0]) 5 7 ping
        \<lparr>incoming = [], outgoing = [], wbudget = None, read_deadline = None, write_deadline = None\<rparr>)))
       = take k (frame_of body))"
proof -
  define c0 :: conn where "c0 =
      \<lparr>incoming = [], outgoing = [], wbudget = None, read_deadline = None, write_deadline = None\<rparr>"
  have big: "DefaultMessageLengthCap < length (replicate 4097 (0 :: byte))"
    by (simp add: DefaultMessageLengthCap_def)
  from WriteMessage_length_cap[of "\<lambda>m. Inr (replicate 4097 0)" ping "replicate 4097 0" 5 7 c0] big
  have a: "WriteMessage (\<lambda>m. Inr (replicate 4097 0)) 5 7 ping c0 = (Some ErrMessageTooLong, c0)"
    by simp
  have ch: "outgoing (snd (WriteMessage (\<lambda>m. Inr [0xC0]) 5 7 ping c0)) \<noteq> outgoing c0"
    by (simp add: WriteMessage_def c0_def DefaultMessageLengthCap_def Let_def conn_Write_def
        io_Copy_def)
  from WriteMessage_length_cap[of "\<lambda>m. Inr [0xC0]" ping "[]" 5 7 c0] ch
  obtain body k where bk: "length body \<le> DefaultMessageLengthCap"
    "declared (frame_of body) = length body"
    "concat (outgoing (snd (WriteMessage (\<lambda>m. Inr [0xC0]) 5 7 ping c0)))
       = concat (outgoing c0) @ take k (frame_of body)"
    by blast
  from bk(3) have "concat (outgoing (snd (WriteMessage (\<lambda>m. Inr [0xC0]) 5 7 ping c0)))
       = take k (frame_of body)" by (simp add: c0_def)
  with bk(1,2)
  have b: "\<exists>body k. length body \<le> DefaultMessageLengthCap \<and> declared (frame_of body) = length body \<and>
      concat (outgoing (snd (WriteMessage (\<lambda>m. Inr [0xC0]) 5 7 ping c0))) = take k (frame_of body)"
    by blast
  from ch have ch': "outgoing (snd (WriteMessage (\<lambda>m. Inr [0xC0]) 5 7 ping c0)) \<noteq> []"
    by (simp add: c0_def)
  from a b ch' big show ?thesis unfolding c0_def by blast
qed

lemma CopyN_chunks_zero: "CopyN_chunks cs 0 = (Inr [], cs)"
  by (cases cs) simp_all

lemma CopyN_chunks_exact:
  "buf \<noteq> [] \<Longrightarrow> CopyN_chunks (buf # later) (length buf) = (Inr buf, later)"
  by simp

lemma io_CopyN_body:
  assumes "incoming c = (if buf = [] then [] else [buf]) @ later"
  shows "io_CopyN c (length buf) = (Inr buf, c\<lparr>incoming := later\<rparr>)"
  using assms by (cases "buf = []") (simp_all add: io_CopyN_def CopyN_chunks_zero)

lemma WriteMessage_success:
  assumes "WriteMessage enc now timeout msg c = (None, c')"
  shows "\<exists>buf. enc msg = Inr buf \<and> length buf \<le> DefaultMessageLengthCap \<and>
           outgoing c' = outgoing c @
             [fst (BigEndian_PutUint16 (of_nat (length buf))),
              snd (BigEndian_PutUint16 (of_nat (length buf)))]
             # (if buf = [] then [] else [buf])"
proof (cases "enc msg")
  case (Inl err)
  with assms show ?thesis by (simp add: WriteMessage_def)
next
  case (Inr buf)
  show ?thesis
  proof (cases "DefaultMessageLengthCap < length buf")
    case True
    with Inr assms show ?thesis by (simp add: WriteMessage_def Let_def)
  next
    case False
    define pre where "pre = [fst (BigEndian_PutUint16 (of_nat (length buf))),
              snd (BigEndian_PutUint16 (of_nat (length buf)))]"
    define c1 where "c1 = c\<lparr>write_deadline := Some (now + timeout)\<rparr>"
    have wm: "WriteMessage enc now timeout msg c =
          (case conn_Write c1 pre of
             (Some err, c2) \<Rightarrow> (Some err, c2)
           | (None, c2) \<Rightarrow> io_Copy c2 buf)"
      using Inr False by (simp add: WriteMessage_def Let_def pre_def c1_def)
    obtain r c2 where w1: "conn_Write c1 pre = (r, c2)" by (cases "conn_Write c1 pre")
    with wm assms have r: "r = None" and cp: "io_Copy c2 buf = (None, c')"
      by (cases r; simp)+
    from conn_Write_emits[of c1 pre] w1 r
    have o2: "outgoing c2 = outgoing c @ [pre]" by (simp add: c1_def)
    have "outgoing c' = outgoing c @ pre # (if buf = [] then [] else [buf])"
    proof (cases "buf = []")
      case True
      with cp o2 show ?thesis by (simp add: io_Copy_def)
    next
      case ne: False
      with cp have w2: "conn_Write c2 buf = (None, c')" by (simp add: io_Copy_def)
      from conn_Write_emits[of c2 buf] w2 have "outgoing c' = outgoing c2 @ [buf]" by simp
      with o2 ne show ?thesis by simp
    qed
    with Inr False show ?thesis by (simp add: pre_def)
  qed
qed


text \<open>
  When \<^verbatim>\<open>WriteMessage\<close> succeeds on a message and the reader's connection delivers the
  chunks as that call wrote them (followed by whatever comes later), \<^verbatim>\<open>ReadMessage\<close> hands
  the decoder exactly the encoded body and leaves exactly the later data unread: it
  returns the message for every decoder that inverts the encoder on it.
\<close>

lemma frame_round_trip:
  assumes "WriteMessage enc now timeout msg cw = (None, cw')"
    and "\<forall>buf. enc msg = Inr buf \<longrightarrow> dec buf = Inr msg"
    and "incoming cr = drop (length (outgoing cw)) (outgoing cw') @ later"
  shows "\<exists>cr'. ReadMessage dec now' timeout' cr = (Inr msg, cr') \<and> incoming cr' = later"
proof -
  from WriteMessage_success[OF assms(1)]
  obtain buf where buf: "enc msg = Inr buf" "length buf \<le> DefaultMessageLengthCap"
    "outgoing cw' = outgoing cw @
             [fst (BigEndian_PutUint16 (of_nat (length buf))),
              snd (BigEndian_PutUint16 (of_nat (length buf)))]
             # (if buf = [] then [] else [buf])"
    by blast
  define b0 where "b0 = fst (BigEndian_PutUint16 (of_nat (length buf)))"
  define b1 where "b1 = snd (BigEndian_PutUint16 (of_nat (length buf)))"
  define c1 where "c1 = cr\<lparr>read_deadline := Some (now' + DefaultHeartbeatTimeout)\<rparr>"
  define c2 where "c2 = c1\<lparr>incoming := (if buf = [] then [] else [buf]) @ later\<rparr>"
  from buf(3) assms(3)
  have inc: "incoming cr = [b0, b1] # (if buf = [] then [] else [buf]) @ later"
    by (simp add: b0_def b1_def)
  then have rd: "conn_Read c1 2 = (Inr [b0, b1], c2)"
    by (simp add: conn_Read_def c1_def c2_def)
  have len: "unat (BigEndian_Uint16 (read_into (0, 0) [b0, b1])) = length buf"
    using declared_length[OF buf(2)] by (simp add: read_into_def b0_def b1_def)
  have cp: "io_CopyN c2 (length buf) = (Inr buf, c2\<lparr>incoming := later\<rparr>)"
    by (rule io_CopyN_body) (simp add: c2_def)
  from assms(2) buf(1) have d: "dec buf = Inr msg" by simp
  have "ReadMessage dec now' timeout' cr = (Inr msg, c2\<lparr>incoming := later\<rparr>)"
    using rd len cp d buf(2)
    by (simp add: ReadMessage_def Let_def c1_def[symmetric])
  then show ?thesis by simp
qed

text \<open>
  Reading a frame does not depend on how the connection cuts it into chunks, as long as
  the first read returns both bytes of the length prefix: the decoder is given exactly the
  body, and exactly the bytes after the frame are left.
\<close>

lemma CopyN_chunks_concat:
  assumes "n \<le> length (concat cs)"
  shows "fst (CopyN_chunks cs n) = Inr (take n (concat cs)) \<and>
         concat (snd (CopyN_chunks cs n)) = drop n (concat cs)"
  using assms
proof (induction cs arbitrary: n)
  case Nil
  then show ?case by simp
next
  case (Cons ch rest)
  show ?case
  proof (cases "n = 0 \<or> n \<le> length ch")
    case True
    then show ?thesis by auto
  next
    case False
    then have gt: "length ch < n" by simp
    with Cons.prems have le: "n - length ch \<le> length (concat rest)" by simp
    from Cons.IH[OF le]
    have ih: "fst (CopyN_chunks rest (n - length ch)) = Inr (take (n - length ch) (concat rest))"
      "concat (snd (CopyN_chunks rest (n - length ch))) = drop (n - length ch) (concat rest)"
      by simp_all
    obtain r left where rl: "CopyN_chunks rest (n - length ch) = (r, left)"
      by (cases "CopyN_chunks rest (n - length ch)")
    with ih have r: "r = Inr (take (n - length ch) (concat rest))"
      and l: "concat left = drop (n - length ch) (concat rest)" by simp_all
    from gt rl r have "CopyN_chunks (ch # rest) n
        = (Inr (ch @ take (n - length ch) (concat rest)), left)" by simp
    with gt l show ?thesis by simp
  qed
qed

lemma ReadMessage_frame:
  assumes "incoming c = first # rest" and "2 \<le> length first"
    and "concat (first # rest) = frame_of buf @ tail"
    and "length buf \<le> DefaultMessageLengthCap"
  shows "fst (ReadMessage dec now timeout c) = dec buf \<and>
         concat (incoming (snd (ReadMessage dec now timeout c))) = tail"
proof -
  define b0 where "b0 = fst (BigEndian_PutUint16 (of_nat (length buf)))"
  define b1 where "b1 = snd (BigEndian_PutUint16 (of_nat (length buf)))"
  have fr: "frame_of buf = b0 # b1 # buf" by (simp add: frame_of_def b0_def b1_def Let_def)
  from assms(2) obtain x y more_bytes where first: "first = x # y # more_bytes"
    by (cases first; cases "tl first") auto
  with assms(3) fr have xy: "x = b0" "y = b1" and rest: "more_bytes @ concat rest = buf @ tail"
    by simp_all
  define c1 where "c1 = c\<lparr>read_deadline := Some (now + DefaultHeartbeatTimeout)\<rparr>"
  define left where "left = (if more_bytes = [] then rest else more_bytes # rest)"
  define c2 where "c2 = c1\<lparr>incoming := left\<rparr>"
  have rd: "conn_Read c1 2 = (Inr [b0, b1], c2)"
    using assms(1) first xy by (simp add: conn_Read_def c1_def c2_def left_def)
  have cl: "concat left = buf @ tail" using rest by (cases "more_bytes = []") (simp_all add: left_def)
  have len: "unat (BigEndian_Uint16 (read_into (0, 0) [b0, b1])) = length buf"
    using declared_length[OF assms(4)] by (simp add: read_into_def b0_def b1_def)
  have "length buf \<le> length (concat left)" by (simp add: cl)
  from CopyN_chunks_concat[OF this] cl
  have cp: "fst (CopyN_chunks left (length buf)) = Inr buf"
    "concat (snd (CopyN_chunks left (length buf))) = tail" by simp_all
  obtain r l' where rl: "CopyN_chunks left (length buf) = (r, l')"
    by (cases "CopyN_chunks left (length buf)")
  with cp have r: "r = Inr buf" and l': "concat l' = tail" by simp_all
  have io: "io_CopyN c2 (length buf) = (Inr buf, c2\<lparr>incoming := l'\<rparr>)"
    using rl r by (simp add: io_CopyN_def c2_def)
  have "ReadMessage dec now timeout c =
      (case dec buf of Inl err \<Rightarrow> (Inl err, c2\<lparr>incoming := l'\<rparr>)
                     | Inr result \<Rightarrow> (Inr result, c2\<lparr>incoming := l'\<rparr>))"
    using rd len io assms(4) by (simp add: ReadMessage_def Let_def c1_def[symmetric])
  with l' show ?thesis by (cases "dec buf") simp_all
qed

text \<open>
  C2. Decoding the frame \<^verbatim>\<open>WriteMessage\<close> produced for a message is to give the message
  back. By the lemmas above it does whenever the first read returns both bytes of the
  length prefix. \<^verbatim>\<open>ReadMessage\<close> reads the prefix with a single \<^verbatim>\<open>Read\<close> and drops the
  count it returns, though. Take a message encoded in five bytes: \<^verbatim>\<open>WriteMessage\<close> writes
  \<open>00 05\<close> and the body. When the same bytes arrive with the first byte of the prefix
  alone, the length is taken from \<open>00 00\<close>, no byte of the body is read, the decoder is
  given the empty buffer whatever the body was, and the second byte of the prefix and the
  whole body stay unread on the connection.
\<close>

theorem round_trip_split_prefix:
  "\<forall>dec now timeout now' timeout' msg.
     WriteMessage (\<lambda>m. Inr [0x81, 0xA2, 0x49, 0x44, 0x07]) now timeout msg
       \<lparr>incoming = [], outgoing = [], wbudget = None, read_deadline = None,
        write_deadline = None\<rparr>
     = (None,
        \<lparr>incoming = [], outgoing = [[0x00, 0x05], [0x81, 0xA2, 0x49, 0x44, 0x07]],
         wbudget = None, read_deadline = None, write_deadline = Some (now + timeout)\<rparr>) \<and>
     concat [[0x00], [0x05, 0x81, 0xA2, 0x49, 0x44, 0x07 :: byte]]
       = concat [[0x00, 0x05], [0x81, 0xA2, 0x49, 0x44, 0x07]] \<and>
     fst (ReadMessage dec now' timeout'
       \<lparr>incoming = [[0x00], [0x05, 0x81, 0xA2, 0x49, 0x44, 0x07]], outgoing = [],
        wbudget = None, read_deadline = None, write_deadline = None\<rparr>)
       = dec [] \<and>
     snd (ReadMessage dec now' timeout'
       \<lparr>incoming = [[0x00], [0x05, 0x81, 0xA2, 0x49, 0x44, 0x07]], outgoing = [],
        wbudget = None, read_deadline = None, write_deadline = None\<rparr>)
       = \<lparr>incoming = [[0x05, 0x81, 0xA2, 0x49, 0x44, 0x07]], outgoing = [], wbudget = None,
          read_deadline = Some (now' + DefaultHeartbeatTimeout), write_deadline = None\<rparr>"
  by (simp add: WriteMessage_def ReadMessage_def conn_Read_def conn_Write_def io_Copy_def
      io_CopyN_def Let_def read_into_def BigEndian_Uint16_def BigEndian_PutUint16_def
      DefaultMessageLengthCap_def split: sum.splits)

text \<open>
  A frame that declares more than 4096 bytes is refused, and nothing after its length
  prefix is consumed, when the first read returns both bytes of the prefix.
\<close>

lemma ReadMessage_too_long:
  assumes "incoming c = (b0 # b1 # more_bytes) # rest"
    and "DefaultMessageLengthCap < declared [b0, b1]"
  shows "ReadMessage dec now timeout c =
           (Inl ErrMessageTooLong,
            c\<lparr>read_deadline := Some (now + DefaultHeartbeatTimeout),
              incoming := (if more_bytes = [] then rest else more_bytes # rest)\<rparr>)"
  using assms
  by (simp add: ReadMessage_def conn_Read_def Let_def read_into_def declared_def)


text \<open>
  C4. A frame whose length prefix declares more than 4096 bytes is to be refused without
  reading its payload. \<^verbatim>\<open>ReadMessage\<close> reads the prefix with a single \<^verbatim>\<open>Read\<close> and drops
  the count it returns. On a connection where the first byte of the prefix \<open>0x10 0x01\<close>
  (4097) arrives alone, the length is taken from \<open>0x10 0x00\<close> (4096) and passes the check:
  the next 4096 bytes, the second byte of the prefix and 4095 bytes of the payload, are
  consumed and handed to the decoder, whose result is returned.
\<close>

theorem oversized_frame_split_prefix:
  "\<forall>dec now timeout.
     declared (0x10 # 0x01 # replicate 4095 0xAA @ [0xBB, 0xCC]) = 4097 \<and>
     fst (ReadMessage dec now timeout
       \<lparr>incoming = [[0x10], 0x01 # replicate 4095 0xAA @ [0xBB, 0xCC]], outgoing = [],
        wbudget = None, read_deadline = None, write_deadline = None\<rparr>)
       = dec (0x01 # replicate 4095 0xAA) \<and>
     snd (ReadMessage dec now timeout
       \<lparr>incoming = [[0x10], 0x01 # replicate 4095 0xAA @ [0xBB, 0xCC]], outgoing = [],
        wbudget = None, read_deadline = None, write_deadline = None\<rparr>)
       = \<lparr>incoming = [[0xBB, 0xCC]], outgoing = [], wbudget = None,
          read_deadline = Some (now + DefaultHeartbeatTimeout), write_deadline = None\<rparr>"
  by (simp add: ReadMessage_def conn_Read_def Let_def read_into_def declared_def
      BigEndian_Uint16_def DefaultMessageLengthCap_def io_CopyN_def split: sum.splits)

section \<open>The claims about the event loop and the tasks of a connection\<close>

text \<open>
  C8. A control command changes nothing: the iteration of the loop that receives it returns
  the state it was given (registry, counter and every queue) and its only effect is the
  log line naming the command. Hence a run ends in the same state with and without the
  control commands among its steps.
\<close>

theorem control_command_inert:
  "processEvents xmpp exc (FromCmdInbox cmd) = (exc, [Log_ignoring_cmd cmd]) \<and>
   run xmpp exc (filter (\<lambda>st. \<not> is_command st) sts) = run xmpp exc sts"
proof -
  have one: "processEvents xmpp e (FromCmdInbox k) = (e, [Log_ignoring_cmd k])" for e k
    by (simp add: processEvents_def)
  have "run xmpp e (filter (\<lambda>st. \<not> is_command st) sts) = run xmpp e sts" for e
  proof (induction sts arbitrary: e)
    case Nil
    show ?case by simp
  next
    case (Cons st sts)
    show ?case
    proof (cases "is_command st")
      case True
      then obtain k where "st = Loop (FromCmdInbox k)"
        by (cases st rule: is_command.cases) simp_all
      with one[of e k] Cons.IH[of e] show ?thesis by (simp add: do_step_def)
    next
      case False
      with Cons.IH show ?thesis by simp
    qed
  qed
  with one show ?thesis by simp
qed

text \<open>
  Every message the reader puts on the shared client-originated channel carries its event
  part, and is not a pong.
\<close>

lemma forwarded_has_event:
  assumes "Outbox_send m \<in> set (snd (snd (clientReader dec now sel c)))"
  shows "\<exists>ev. event m = Some ev \<and> Type ev \<noteq> ''pong''"
  using assms
  by (auto simp: clientReader_def
      split: prod.splits sum.splits option.splits if_splits reader_select.splits)

lemma SendMessageToBot_event:
  assumes "event msg = Some ev"
  shows "processEvents xmpp exc (FromOutbox msg) =
           (exc,
            Stream_Write \<lparr>stype = GROUPCHAT, To = ''golang@conference.jabber.ru'',
                          Body = map_index (Data ev) ''body''\<rparr>
            # (case xmpp \<lparr>stype = GROUPCHAT, To = ''golang@conference.jabber.ru'',
                            Body = map_index (Data ev) ''body''\<rparr> of
                 None \<Rightarrow> [] | Some err \<Rightarrow> [Log_stream_failed err]))"
  using assms by (simp add: processEvents_def SendMessageToBot_def Let_def)


text \<open>
  C6. For every message a reader has put on the shared client-originated channel, the loop
  iteration that receives it writes to the chat stream one group-chat stanza to the fixed
  destination whose body is \<^verbatim>\<open>Data["body"]\<close> of the message, logs a failure of the stream if
  there is one, and leaves its state unchanged; the ID the client supplied has no
  influence on any of this.
\<close>

theorem client_message_to_chat:
  assumes "Outbox_send msg \<in> set (snd (snd (clientReader dec now sel c)))"
  shows "\<exists>ev. event msg = Some ev \<and>
           processEvents xmpp exc (FromOutbox msg) =
             (exc,
              Stream_Write \<lparr>stype = GROUPCHAT, To = ''golang@conference.jabber.ru'',
                            Body = map_index (Data ev) ''body''\<rparr>
              # (case xmpp \<lparr>stype = GROUPCHAT, To = ''golang@conference.jabber.ru'',
                              Body = map_index (Data ev) ''body''\<rparr> of
                   None \<Rightarrow> [] | Some err \<Rightarrow> [Log_stream_failed err])) \<and>
           (\<forall>i. processEvents xmpp exc (FromOutbox (msg\<lparr>ID := i\<rparr>))
                  = processEvents xmpp exc (FromOutbox msg))"
proof -
  from forwarded_has_event[OF assms] obtain ev where ev: "event msg = Some ev" by blast
  have "processEvents xmpp exc (FromOutbox (msg\<lparr>ID := i\<rparr>))
          = processEvents xmpp exc (FromOutbox msg)" for i
    by (simp add: processEvents_def SendMessageToBot_def)
  with ev SendMessageToBot_event[OF ev, of xmpp exc] show ?thesis by blast
qed

theorem client_message_to_chat_witness:
  "Outbox_send \<lparr>event = Some \<lparr>Type = ''reply'', Data = Some [''body'' \<mapsto> ''yo'']\<rparr>, ID = 7\<rparr>
     \<in> set (snd (snd (clientReader
          (\<lambda>b. Inr \<lparr>event = Some \<lparr>Type = ''reply'', Data = Some [''body'' \<mapsto> ''yo'']\<rparr>, ID = 7\<rparr>)
          0 Outbox_ready
          \<lparr>incoming = [[0, 1, 0xC0]], outgoing = [], wbudget = None, read_deadline = None,
           write_deadline = None\<rparr>))) \<and>
   processEvents (\<lambda>_. None) NewExecutor
       (FromOutbox \<lparr>event = Some \<lparr>Type = ''reply'', Data = Some [''body'' \<mapsto> ''yo'']\<rparr>, ID = 7\<rparr>)
     = (NewExecutor,
        [Stream_Write \<lparr>stype = GROUPCHAT, To = ''golang@conference.jabber.ru'', Body = ''yo''\<rparr>])"
proof -
  define reply where "reply =
    \<lparr>event = Some \<lparr>Type = ''reply'', Data = Some [''body'' \<mapsto> ''yo'']\<rparr>, ID = 7 :: 64 word\<rparr>"
  define c :: conn where "c = \<lparr>incoming = [[0, 1, 0xC0]], outgoing = [], wbudget = None,
      read_deadline = None, write_deadline = None\<rparr>"
  have r: "ReadMessage (\<lambda>b. Inr reply) 0 DefaultHeartbeatTimeout c =
      (Inr reply, c\<lparr>incoming := [], read_deadline := Some DefaultHeartbeatTimeout\<rparr>)"
    by (simp add: ReadMessage_def conn_Read_def Let_def read_into_def BigEndian_Uint16_def
        DefaultMessageLengthCap_def io_CopyN_def c_def)
  have sent: "Outbox_send reply \<in> set (snd (snd (clientReader (\<lambda>b. Inr reply) 0 Outbox_ready c)))"
    by (simp add: clientReader_def r) (simp add: reply_def)
  from client_message_to_chat[OF sent, of "\<lambda>_. None" NewExecutor]
  obtain ev where ev: "event reply = Some ev"
    "processEvents (\<lambda>_. None) NewExecutor (FromOutbox reply) =
       (NewExecutor,
        [Stream_Write \<lparr>stype = GROUPCHAT, To = ''golang@conference.jabber.ru'',
                       Body = map_index (Data ev) ''body''\<rparr>])"
    by auto
  from ev(1) have "ev = \<lparr>Type = ''reply'', Data = Some [''body'' \<mapsto> ''yo'']\<rparr>"
    by (simp add: reply_def)
  then have "map_index (Data ev) ''body'' = ''yo''" by (simp add: map_index_def)
  with ev(2) sent show ?thesis unfolding reply_def c_def by simp
qed

text \<open>
  C5. For every message the reader has decoded that carries its event part (where \<open>Type\<close>
  and \<open>Data\<close> live): if its \<open>Type\<close> is "pong" the iteration has no effect and the loop
  goes on; otherwise the message is sent on the shared client-originated channel and the
  loop goes on, unless the stop signal fires first, in which case nothing is sent and the
  reader exits.
\<close>

theorem reader_dispatch:
  assumes "ReadMessage dec now DefaultHeartbeatTimeout c = (Inr msg, c')"
    and "event msg = Some ev"
  shows "(Type ev = ''pong'' \<longrightarrow> clientReader dec now sel c = (True, c', [])) \<and>
         (Type ev \<noteq> ''pong'' \<longrightarrow>
            clientReader dec now Outbox_ready c = (True, c', [Outbox_send msg]) \<and>
            clientReader dec now Stop_fired c = (False, c', [Conn_Close]))"
  using assms by (simp add: clientReader_def)

theorem reader_dispatch_witness:
  "(\<exists>c'. ReadMessage (\<lambda>b. Inr \<lparr>event = Some \<lparr>Type = ''pong'', Data = None\<rparr>, ID = 0\<rparr>) 0
            DefaultHeartbeatTimeout
            \<lparr>incoming = [[0, 1, 0xC0]], outgoing = [], wbudget = None, read_deadline = None,
             write_deadline = None\<rparr>
          = (Inr \<lparr>event = Some \<lparr>Type = ''pong'', Data = None\<rparr>, ID = 0\<rparr>, c') \<and>
        clientReader (\<lambda>b. Inr \<lparr>event = Some \<lparr>Type = ''pong'', Data = None\<rparr>, ID = 0\<rparr>) 0 Outbox_ready
            \<lparr>incoming = [[0, 1, 0xC0]], outgoing = [], wbudget = None, read_deadline = None,
             write_deadline = None\<rparr>
          = (True, c', [])) \<and>
   (\<exists>c'. ReadMessage (\<lambda>b. Inr \<lparr>event = Some \<lparr>Type = ''reply'', Data = None\<rparr>, ID = 7\<rparr>) 0
            DefaultHeartbeatTimeout
            \<lparr>incoming = [[0, 1, 0xC0]], outgoing = [], wbudget = None, read_deadline = None,
             write_deadline = None\<rparr>
          = (Inr \<lparr>event = Some \<lparr>Type = ''reply'', Data = None\<rparr>, ID = 7\<rparr>, c') \<and>
        clientReader (\<lambda>b. Inr \<lparr>event = Some \<lparr>Type = ''reply'', Data = None\<rparr>, ID = 7\<rparr>) 0 Outbox_ready
            \<lparr>incoming = [[0, 1, 0xC0]], outgoing = [], wbudget = None, read_deadline = None,
             write_deadline = None\<rparr>
          = (True, c', [Outbox_send \<lparr>event = Some \<lparr>Type = ''reply'', Data = None\<rparr>, ID = 7\<rparr>]) \<and>
        clientReader (\<lambda>b. Inr \<lparr>event = Some \<lparr>Type = ''reply'', Data = None\<rparr>, ID = 7\<rparr>) 0 Stop_fired
            \<lparr>incoming = [[0, 1, 0xC0]], outgoing = [], wbudget = None, read_deadline = None,
             write_deadline = None\<rparr>
          = (False, c', [Conn_Close]))"
proof -
  define c :: conn where "c = \<lparr>incoming = [[0, 1, 0xC0]], outgoing = [], wbudget = None,
      read_deadline = None, write_deadline = None\<rparr>"
  define c' :: conn where "c' = \<lparr>incoming = [], outgoing = [], wbudget = None,
      read_deadline = Some DefaultHeartbeatTimeout, write_deadline = None\<rparr>"
  define pong where "pong = \<lparr>event = Some \<lparr>Type = ''pong'', Data = None\<rparr>, ID = 0 :: 64 word\<rparr>"
  define reply where "reply = \<lparr>event = Some \<lparr>Type = ''reply'', Data = None\<rparr>, ID = 7 :: 64 word\<rparr>"
  have r: "ReadMessage (\<lambda>b. Inr m) 0 DefaultHeartbeatTimeout c = (Inr m, c')" for m
    by (simp add: ReadMessage_def conn_Read_def Let_def read_into_def BigEndian_Uint16_def
        DefaultMessageLengthCap_def io_CopyN_def c_def c'_def)
  have e1: "event pong = Some \<lparr>Type = ''pong'', Data = None\<rparr>" by (simp add: pong_def)
  have e2: "event reply = Some \<lparr>Type = ''reply'', Data = None\<rparr>" by (simp add: reply_def)
  from reader_dispatch[OF r[of pong] e1, of Outbox_ready]
  have a: "clientReader (\<lambda>b. Inr pong) 0 Outbox_ready c = (True, c', [])" by simp
  from reader_dispatch[OF r[of reply] e2, of Outbox_ready]
  have b: "clientReader (\<lambda>b. Inr reply) 0 Outbox_ready c = (True, c', [Outbox_send reply])"
    "clientReader (\<lambda>b. Inr reply) 0 Stop_fired c = (False, c', [Conn_Close])" by simp_all
  from a b r[of pong] r[of reply] show ?thesis
    unfolding c_def pong_def reply_def by blast
qed

text \<open>
  A decoded message without its event part has no \<open>Type\<close> to look at: the reader faults,
  the fault is recovered and reported on the error channel, and the reader exits without
  forwarding anything.
\<close>

lemma reader_nil_event:
  assumes "ReadMessage dec now DefaultHeartbeatTimeout c = (Inr msg, c')" and "event msg = None"
  shows "clientReader dec now sel c =
           (False, c', [Conn_Close, Log_caught_panic, Log_caught_panic, Errors_send ErrPanic])"
  using assms by (simp add: clientReader_def)

text \<open>
  Without the restriction to messages that carry their event part the statement fails.
  The frame \<open>00 01 C0\<close>, whose body a decoder takes for the nil value, is decoded without
  an error to a message with no event part; the reader, whose send on the shared channel
  would go through and whose stop signal has not fired, exits on the recovered fault and
  the message is not forwarded.
\<close>

theorem reader_nil_event_counterexample:
  "fst (ReadMessage (\<lambda>b. if b = [0xC0] then Inr \<lparr>event = None, ID = 0\<rparr> else Inl ErrCodec)
          0 DefaultHeartbeatTimeout
          \<lparr>incoming = [[0x00, 0x01, 0xC0]], outgoing = [], wbudget = None, read_deadline = None,
           write_deadline = None\<rparr>)
     = Inr \<lparr>event = None, ID = 0\<rparr> \<and>
   clientReader (\<lambda>b. if b = [0xC0] then Inr \<lparr>event = None, ID = 0\<rparr> else Inl ErrCodec)
       0 Outbox_ready
       \<lparr>incoming = [[0x00, 0x01, 0xC0]], outgoing = [], wbudget = None, read_deadline = None,
        write_deadline = None\<rparr>
     = (False,
        \<lparr>incoming = [], outgoing = [], wbudget = None,
         read_deadline = Some DefaultHeartbeatTimeout, write_deadline = None\<rparr>,
        [Conn_Close, Log_caught_panic, Log_caught_panic, Errors_send ErrPanic]) \<and>
   Outbox_send \<lparr>event = None, ID = 0\<rparr>
     \<notin> set (snd (snd (clientReader
          (\<lambda>b. if b = [0xC0] then Inr \<lparr>event = None, ID = 0\<rparr> else Inl ErrCodec)
          0 Outbox_ready
          \<lparr>incoming = [[0x00, 0x01, 0xC0]], outgoing = [], wbudget = None, read_deadline = None,
           write_deadline = None\<rparr>)))"
proof -
  define dec :: decoder where
    "dec = (\<lambda>b. if b = [0xC0] then Inr \<lparr>event = None, ID = 0\<rparr> else Inl ErrCodec)"
  define c :: conn where "c = \<lparr>incoming = [[0x00, 0x01, 0xC0]], outgoing = [], wbudget = None,
      read_deadline = None, write_deadline = None\<rparr>"
  define c' :: conn where "c' = \<lparr>incoming = [], outgoing = [], wbudget = None,
      read_deadline = Some DefaultHeartbeatTimeout, write_deadline = None\<rparr>"
  have r: "ReadMessage dec 0 DefaultHeartbeatTimeout c = (Inr \<lparr>event = None, ID = 0\<rparr>, c')"
    by (simp add: ReadMessage_def conn_Read_def Let_def read_into_def BigEndian_Uint16_def
        DefaultMessageLengthCap_def io_CopyN_def c_def c'_def dec_def)
  have e: "event \<lparr>event = None, ID = 0 :: 64 word\<rparr> = None" by simp
  from reader_nil_event[OF r e, of Outbox_ready]
  have cr: "clientReader dec 0 Outbox_ready c =
      (False, c', [Conn_Close, Log_caught_panic, Log_caught_panic, Errors_send ErrPanic])" .
  from r cr show ?thesis unfolding dec_def c_def c'_def by simp
qed

lemma conn_Write_deadline: "write_deadline (snd (conn_Write c p)) = write_deadline c"
  by (simp add: conn_Write_def split: option.splits)

lemma WriteMessage_deadline:
  assumes "enc msg = Inr buf" and "length buf \<le> DefaultMessageLengthCap"
  shows "write_deadline (snd (WriteMessage enc now timeout msg c)) = Some (now + timeout)"
proof -
  define pre where "pre = [fst (BigEndian_PutUint16 (of_nat (length buf))),
              snd (BigEndian_PutUint16 (of_nat (length buf)))]"
  define c1 where "c1 = c\<lparr>write_deadline := Some (now + timeout)\<rparr>"
  have wm: "WriteMessage enc now timeout msg c =
          (case conn_Write c1 pre of
             (Some err, c2) \<Rightarrow> (Some err, c2)
           | (None, c2) \<Rightarrow> io_Copy c2 buf)"
    using assms by (simp add: WriteMessage_def Let_def pre_def c1_def)
  obtain r c2 where w1: "conn_Write c1 pre = (r, c2)" by (cases "conn_Write c1 pre")
  from conn_Write_deadline[of c1 pre] w1
  have d2: "write_deadline c2 = Some (now + timeout)" by (simp add: c1_def)
  show ?thesis
  proof (cases r)
    case None
    with wm w1 have "snd (WriteMessage enc now timeout msg c) = snd (io_Copy c2 buf)" by simp
    with d2 show ?thesis by (simp add: io_Copy_def conn_Write_deadline)
  next
    case (Some err)
    with wm w1 d2 show ?thesis by simp
  qed
qed


text \<open>
  C7. The message the writer sends when its ticker fires has \<open>Type\<close> "ping", no \<open>Data\<close> and
  \<open>ID\<close> -1. The ticker branch leaves the connection as \<^verbatim>\<open>WriteMessage\<close> of that message with
  the timeout \<^verbatim>\<open>DefaultHeartbeatTimeout\<close> does, which is the timeout of the branch for queued
  messages: both set the write deadline to the current time plus that timeout.
\<close>

theorem heartbeat_ping:
  "ping = \<lparr>event = Some \<lparr>Type = ''ping'', Data = None\<rparr>, ID = - 1\<rparr> \<and>
   sint (ID ping) = - 1 \<and>
   fst (clientWriter enc now sc c Heartbeat_tick)
     = fst (clientWriter enc now sc c (Inbox_recv (Some ping))) \<and>
   fst (snd (clientWriter enc now sc c Heartbeat_tick))
     = snd (WriteMessage enc now DefaultHeartbeatTimeout ping c) \<and>
   fst (snd (clientWriter enc now sc c (Inbox_recv (Some msg))))
     = snd (WriteMessage enc now DefaultHeartbeatTimeout msg c) \<and>
   (enc ping = Inr buf \<and> length buf \<le> DefaultMessageLengthCap \<longrightarrow>
      write_deadline (fst (snd (clientWriter enc now sc c Heartbeat_tick)))
        = Some (now + DefaultHeartbeatTimeout)) \<and>
   (enc msg = Inr buf' \<and> length buf' \<le> DefaultMessageLengthCap \<longrightarrow>
      write_deadline (fst (snd (clientWriter enc now sc c (Inbox_recv (Some msg)))))
        = Some (now + DefaultHeartbeatTimeout))"
proof -
  have tick: "fst (snd (clientWriter enc now sc c Heartbeat_tick))
     = snd (WriteMessage enc now DefaultHeartbeatTimeout ping c)"
    by (simp add: clientWriter_def split: prod.splits option.splits)
  have recv: "fst (snd (clientWriter enc now sc c (Inbox_recv (Some m))))
     = snd (WriteMessage enc now DefaultHeartbeatTimeout m c)" for m
    by (simp add: clientWriter_def split: prod.splits option.splits)
  have cont: "fst (clientWriter enc now sc c Heartbeat_tick)
     = fst (clientWriter enc now sc c (Inbox_recv (Some ping)))"
    by (simp add: clientWriter_def split: prod.splits option.splits)
  have "sint (ID ping) = - 1" by (simp add: ping_def)
  with tick recv cont show ?thesis
    by (simp add: WriteMessage_deadline) (simp add: ping_def)
qed

theorem heartbeat_ping_witness:
  "(\<lambda>m. Inr [0xC0]) ping = (Inr [0xC0] :: error + byte list) \<and>
   length [0xC0 :: byte] \<le> DefaultMessageLengthCap \<and>
   write_deadline (fst (snd (clientWriter (\<lambda>m. Inr [0xC0]) 1000 False
       \<lparr>incoming = [], outgoing = [], wbudget = None, read_deadline = None, write_deadline = None\<rparr>
       Heartbeat_tick)))
     = Some (1000 + DefaultHeartbeatTimeout) \<and>
   write_deadline (fst (snd (clientWriter (\<lambda>m. Inr [0xC0]) 1000 False
       \<lparr>incoming = [], outgoing = [], wbudget = None, read_deadline = None, write_deadline = None\<rparr>
       (Inbox_recv (Some \<lparr>event = None, ID = 3\<rparr>)))))
     = Some (1000 + DefaultHeartbeatTimeout)"
proof -
  define c0 :: conn where "c0 =
    \<lparr>incoming = [], outgoing = [], wbudget = None, read_deadline = None, write_deadline = None\<rparr>"
  define enc :: encoder where "enc = (\<lambda>m. Inr [0xC0])"
  have e: "enc m = Inr [0xC0] \<and> length [0xC0 :: byte] \<le> DefaultMessageLengthCap" for m
    by (simp add: enc_def DefaultMessageLengthCap_def)
  from heartbeat_ping[of enc 1000 False c0 "\<lparr>event = None, ID = 3\<rparr>" "[0xC0]" "[0xC0]"]
  have "enc ping = Inr [0xC0] \<and> length [0xC0 :: byte] \<le> DefaultMessageLengthCap \<longrightarrow>
      write_deadline (fst (snd (clientWriter enc 1000 False c0 Heartbeat_tick)))
        = Some (1000 + DefaultHeartbeatTimeout)"
    and "enc \<lparr>event = None, ID = 3\<rparr> = Inr [0xC0] \<and> length [0xC0 :: byte] \<le> DefaultMessageLengthCap \<longrightarrow>
      write_deadline (fst (snd (clientWriter enc 1000 False c0
          (Inbox_recv (Some \<lparr>event = None, ID = 3\<rparr>)))))
        = Some (1000 + DefaultHeartbeatTimeout)"
    by blast+
  with e have "write_deadline (fst (snd (clientWriter enc 1000 False c0 Heartbeat_tick)))
        = Some (1000 + DefaultHeartbeatTimeout)"
    "write_deadline (fst (snd (clientWriter enc 1000 False c0
          (Inbox_recv (Some \<lparr>event = None, ID = 3\<rparr>)))))
        = Some (1000 + DefaultHeartbeatTimeout)"
    by blast+
  with e[of ping] show ?thesis unfolding c0_def enc_def by blast
qed

end
